theory Spec2Isabelle
  imports Main "HOL-Library.Word"
begin

section \<open>JavaScript strings\<close>

text \<open>A JavaScript string is a sequence of UTF-16 code units.\<close>

type_synonym jschar = "16 word"
type_synonym jstring = "jschar list"

definition js :: "string \<Rightarrow> jstring" where
  "js s = map of_char s"

definition digit_char :: "nat \<Rightarrow> jschar" where
  "digit_char d = of_nat (48 + d)"

fun nat_to_string :: "nat \<Rightarrow> jstring" where
  "nat_to_string n =
     (if n < 10 then [digit_char n]
      else nat_to_string (n div 10) @ [digit_char (n mod 10)])"

declare nat_to_string.simps [simp del]

text \<open>\<open>Number.prototype.toString\<close> on an integer-valued number below \<open>10^21\<close> in
  magnitude: the decimal digits, with a minus sign for a negative value.\<close>

definition toString :: "int \<Rightarrow> jstring" where
  "toString i = (if i < 0 then 0x2D # nat_to_string (nat (- i)) else nat_to_string (nat i))"

text \<open>The numeric value of a decimal string, used to compare time-based ids.\<close>

definition dec_value :: "jstring \<Rightarrow> nat" where
  "dec_value s = foldl (\<lambda>a c. 10 * a + (unat c - 48)) 0 s"

definition id_value :: "jstring \<Rightarrow> int" where
  "id_value s = (case s of [] \<Rightarrow> 0
                 | c # r \<Rightarrow> if c = 0x2D then - int (dec_value r) else int (dec_value s))"

section \<open>JSON values (types.ts)\<close>

datatype 'n json =
    JNull
  | JBool bool
  | JNumber 'n
  | JString jstring
  | JArray "'n json list"
  | JObject "(jstring \<times> 'n json) list"

datatype DataType = STRING | NUMBER | BOOLEAN | NULL | OBJECT | ARRAY | UNKNOWN

fun getDataType :: "'n json \<Rightarrow> DataType" where
  "getDataType JNull = NULL"
| "getDataType (JArray xs) = ARRAY"
| "getDataType (JObject kvs) = OBJECT"
| "getDataType (JString s) = STRING"
| "getDataType (JNumber n) = NUMBER"
| "getDataType (JBool b) = BOOLEAN"

text \<open>\<open>Object.entries\<close>, which the code calls on arrays and objects only: the
  elements of an array under their indices, the properties of an object in property
  order.\<close>

fun entries :: "'n json \<Rightarrow> (jstring \<times> 'n json) list" where
  "entries (JArray xs) = zip (map (\<lambda>i. toString (int i)) [0 ..< length xs]) xs"
| "entries (JObject kvs) = kvs"

section \<open>The platform: JSON.stringify and JSON.parse\<close>

text \<open>
  The two library functions the repository calls, after ECMA-262 (JSON.parse,
  JSON.stringify with a numeric \<open>space\<close>, QuoteJSONString). What differs between engines
  is taken as a parameter: the Number type with the conversion of a number token to a
  number, of a number to a string and the test for a finite number; the depth of nesting
  up to which the stack of the engine holds the recursion of JSON.stringify; the wording
  of the errors. An engine with IEEE 754 doubles is given below.
\<close>

record 'n platform =
  ToNumber :: "jstring \<Rightarrow> 'n"
  NumberToString :: "'n \<Rightarrow> jstring"
  isFinite :: "'n \<Rightarrow> bool"
  stackLimit :: nat
  syntaxErrorMessage :: "jstring \<Rightarrow> jstring"
  rangeErrorMessage :: jstring

datatype thrown = Error jstring | NonError

subsection \<open>Objects: property order\<close>

definition is_digit :: "jschar \<Rightarrow> bool" where
  "is_digit c = (0x30 \<le> c \<and> c \<le> 0x39)"

text \<open>An array index is the canonical decimal string of an integer below \<open>2^32 - 1\<close>.\<close>

definition is_array_index :: "jstring \<Rightarrow> bool" where
  "is_array_index k =
     (k \<noteq> [] \<and> list_all is_digit k \<and> (hd k = 0x30 \<longrightarrow> k = [0x30]) \<and>
      dec_value k < 4294967295)"

text \<open>Own property keys are listed with the array indices first, in ascending numeric
  order, then the other strings in the order of their creation.\<close>

fun put_index :: "jstring \<Rightarrow> 'v \<Rightarrow> (jstring \<times> 'v) list \<Rightarrow> (jstring \<times> 'v) list" where
  "put_index k v [] = [(k, v)]"
| "put_index k v ((k', v') # r) =
     (if is_array_index k' \<and> dec_value k' < dec_value k
      then (k', v') # put_index k v r
      else (k, v) # (k', v') # r)"

text \<open>CreateDataProperty: an existing key keeps its place and takes the new value.\<close>

definition js_put :: "jstring \<Rightarrow> 'v \<Rightarrow> (jstring \<times> 'v) list \<Rightarrow> (jstring \<times> 'v) list" where
  "js_put k v obj =
     (if k \<in> set (map fst obj)
      then map (\<lambda>(k', v'). if k' = k then (k', v) else (k', v')) obj
      else if is_array_index k then put_index k v obj
      else obj @ [(k, v)])"

definition mk_object :: "(jstring \<times> 'v) list \<Rightarrow> (jstring \<times> 'v) list" where
  "mk_object kvs = foldl (\<lambda>obj (k, v). js_put k v obj) [] kvs"

subsection \<open>JSON.parse\<close>

definition is_ws :: "jschar \<Rightarrow> bool" where
  "is_ws c = (c = 0x09 \<or> c = 0x0A \<or> c = 0x0D \<or> c = 0x20)"

definition skip_ws :: "jstring \<Rightarrow> jstring" where
  "skip_ws s = dropWhile is_ws s"

definition is_numchar :: "jschar \<Rightarrow> bool" where
  "is_numchar c = (is_digit c \<or> c = 0x2B \<or> c = 0x2D \<or> c = 0x2E \<or> c = 0x45 \<or> c = 0x65)"

definition is_exp :: "jstring \<Rightarrow> bool" where
  "is_exp r =
     (case r of
        [] \<Rightarrow> True
      | e # r' \<Rightarrow>
          (e = 0x45 \<or> e = 0x65) \<and>
          (let ds = (case r' of [] \<Rightarrow> [] | s # x \<Rightarrow> if s = 0x2B \<or> s = 0x2D then x else r')
           in ds \<noteq> [] \<and> list_all is_digit ds))"

definition is_frac_exp :: "jstring \<Rightarrow> bool" where
  "is_frac_exp r =
     (case r of
        [] \<Rightarrow> True
      | c # r' \<Rightarrow>
          if c = 0x2E
          then takeWhile is_digit r' \<noteq> [] \<and> is_exp (dropWhile is_digit r')
          else is_exp r)"

definition is_unsigned :: "jstring \<Rightarrow> bool" where
  "is_unsigned t =
     (case t of
        [] \<Rightarrow> False
      | c # r \<Rightarrow>
          if c = 0x30 then is_frac_exp r
          else is_digit c \<and> is_frac_exp (dropWhile is_digit r))"

text \<open>The JSON number grammar: \<open>-? (0 | [1-9][0-9]*) (. [0-9]+)? ([eE] [+-]? [0-9]+)?\<close>\<close>

definition is_json_number :: "jstring \<Rightarrow> bool" where
  "is_json_number t =
     (case t of
        [] \<Rightarrow> False
      | c # r \<Rightarrow> if c = 0x2D then is_unsigned r else is_unsigned t)"

text \<open>No character of a number may follow a number, so the token is the longest run of
  such characters, and it must be a number.\<close>

definition lex_number :: "jstring \<Rightarrow> (jstring \<times> jstring) option" where
  "lex_number s =
     (let t = takeWhile is_numchar s
      in if is_json_number t then Some (t, dropWhile is_numchar s) else None)"

definition hex_value :: "jschar \<Rightarrow> nat option" where
  "hex_value c =
     (if 0x30 \<le> c \<and> c \<le> 0x39 then Some (unat c - 0x30)
      else if 0x41 \<le> c \<and> c \<le> 0x46 then Some (unat c - 0x41 + 10)
      else if 0x61 \<le> c \<and> c \<le> 0x66 then Some (unat c - 0x61 + 10)
      else None)"

definition hex4 :: "jschar \<Rightarrow> jschar \<Rightarrow> jschar \<Rightarrow> jschar \<Rightarrow> jschar option" where
  "hex4 a b c d =
     (case (hex_value a, hex_value b, hex_value c, hex_value d) of
        (Some x, Some y, Some z, Some w) \<Rightarrow> Some (of_nat (4096 * x + 256 * y + 16 * z + w))
      | _ \<Rightarrow> None)"

text \<open>The characters of a string, after its opening quote, up to its closing quote.\<close>

text \<open>The single-character escapes of a JSON string.\<close>

definition unescape :: "jschar \<Rightarrow> jschar option" where
  "unescape e =
     (if e = 0x22 then Some 0x22 else if e = 0x5C then Some 0x5C
      else if e = 0x2F then Some 0x2F else if e = 0x62 then Some 0x08
      else if e = 0x66 then Some 0x0C else if e = 0x6E then Some 0x0A
      else if e = 0x72 then Some 0x0D else if e = 0x74 then Some 0x09
      else None)"

fun parse_string :: "jstring \<Rightarrow> (jstring \<times> jstring) option" where
  "parse_string [] = None"
| "parse_string (c # r) =
     (if c = 0x22 then Some ([], r)
      else if c = 0x5C then
        (case r of
           [] \<Rightarrow> None
         | e # r' \<Rightarrow>
             if e = 0x75 then
               (case r' of
                  a # b # x # y # r'' \<Rightarrow>
                    (case hex4 a b x y of
                       None \<Rightarrow> None
                     | Some u \<Rightarrow> map_option (\<lambda>(s, t). (u # s, t)) (parse_string r''))
                | _ \<Rightarrow> None)
             else
               (case unescape e of
                  None \<Rightarrow> None
                | Some u \<Rightarrow> map_option (\<lambda>(s, t). (u # s, t)) (parse_string r')))
      else if c < 0x20 then None
      else map_option (\<lambda>(s, t). (c # s, t)) (parse_string r))"

text \<open>The parser is a recursive descent over the input, with a bound on the number of
  nested calls: a result is the value read and the rest of the input, or a syntax error,
  or the bound was reached. \<open>JSON_parse\<close> starts with a bound that is never reached
  (lemma \<open>JSON_parse_fuel\<close>).\<close>

datatype 'a presult = Ok 'a jstring | Bad | OutOfFuel

definition strip_prefix :: "jstring \<Rightarrow> jstring \<Rightarrow> jstring option" where
  "strip_prefix p s = (if take (length p) s = p then Some (drop (length p) s) else None)"

fun parse_value :: "'n platform \<Rightarrow> nat \<Rightarrow> jstring \<Rightarrow> 'n json presult"
and parse_elements :: "'n platform \<Rightarrow> nat \<Rightarrow> jstring \<Rightarrow> 'n json list presult"
and parse_members :: "'n platform \<Rightarrow> nat \<Rightarrow> jstring \<Rightarrow> (jstring \<times> 'n json) list presult"
where
  "parse_value E 0 s = OutOfFuel"
| "parse_value E (Suc n) [] = Bad"
| "parse_value E (Suc n) (c # r) =
     (if c = 0x7B then
        (case skip_ws r of
           [] \<Rightarrow> Bad
         | c' # r' \<Rightarrow>
             if c' = 0x7D then Ok (JObject []) r'
             else (case parse_members E n (c' # r') of
                     Ok kvs r'' \<Rightarrow> Ok (JObject (mk_object kvs)) r''
                   | Bad \<Rightarrow> Bad
                   | OutOfFuel \<Rightarrow> OutOfFuel))
      else if c = 0x5B then
        (case skip_ws r of
           [] \<Rightarrow> Bad
         | c' # r' \<Rightarrow>
             if c' = 0x5D then Ok (JArray []) r'
             else (case parse_elements E n (c' # r') of
                     Ok vs r'' \<Rightarrow> Ok (JArray vs) r''
                   | Bad \<Rightarrow> Bad
                   | OutOfFuel \<Rightarrow> OutOfFuel))
      else if c = 0x22 then
        (case parse_string r of None \<Rightarrow> Bad | Some (s, r') \<Rightarrow> Ok (JString s) r')
      else if c = 0x6E then
        (case strip_prefix (js ''ull'') r of None \<Rightarrow> Bad | Some r' \<Rightarrow> Ok JNull r')
      else if c = 0x74 then
        (case strip_prefix (js ''rue'') r of None \<Rightarrow> Bad | Some r' \<Rightarrow> Ok (JBool True) r')
      else if c = 0x66 then
        (case strip_prefix (js ''alse'') r of None \<Rightarrow> Bad | Some r' \<Rightarrow> Ok (JBool False) r')
      else
        (case lex_number (c # r) of
           None \<Rightarrow> Bad
         | Some (t, r') \<Rightarrow> Ok (JNumber (ToNumber E t)) r'))"
| "parse_elements E 0 s = OutOfFuel"
| "parse_elements E (Suc n) s =
     (case parse_value E n s of
        Ok v r \<Rightarrow>
          (case skip_ws r of
             [] \<Rightarrow> Bad
           | c # r' \<Rightarrow>
               if c = 0x5D then Ok [v] r'
               else if c = 0x2C then
                 (case parse_elements E n (skip_ws r') of
                    Ok vs r'' \<Rightarrow> Ok (v # vs) r''
                  | Bad \<Rightarrow> Bad
                  | OutOfFuel \<Rightarrow> OutOfFuel)
               else Bad)
      | Bad \<Rightarrow> Bad
      | OutOfFuel \<Rightarrow> OutOfFuel)"
| "parse_members E 0 s = OutOfFuel"
| "parse_members E (Suc n) [] = Bad"
| "parse_members E (Suc n) (q # s) =
     (if q \<noteq> 0x22 then Bad
      else
        (case parse_string s of
           None \<Rightarrow> Bad
         | Some (key, r) \<Rightarrow>
             (case skip_ws r of
                [] \<Rightarrow> Bad
              | c # r' \<Rightarrow>
                  if c \<noteq> 0x3A then Bad
                  else
                    (case parse_value E n (skip_ws r') of
                       Ok v r'' \<Rightarrow>
                         (case skip_ws r'' of
                            [] \<Rightarrow> Bad
                          | c' # r3 \<Rightarrow>
                              if c' = 0x7D then Ok [(key, v)] r3
                              else if c' = 0x2C then
                                (case parse_members E n (skip_ws r3) of
                                   Ok kvs r4 \<Rightarrow> Ok ((key, v) # kvs) r4
                                 | Bad \<Rightarrow> Bad
                                 | OutOfFuel \<Rightarrow> OutOfFuel)
                              else Bad)
                     | Bad \<Rightarrow> Bad
                     | OutOfFuel \<Rightarrow> OutOfFuel))))"

definition JSON_parse :: "'n platform \<Rightarrow> jstring \<Rightarrow> thrown + 'n json" where
  "JSON_parse E text =
     (case parse_value E (2 * length text + 1) (skip_ws text) of
        Ok v r \<Rightarrow>
          if skip_ws r = [] then Inr v else Inl (Error (syntaxErrorMessage E text))
      | Bad \<Rightarrow> Inl (Error (syntaxErrorMessage E text))
      | OutOfFuel \<Rightarrow> Inl (Error (syntaxErrorMessage E text)))"

subsection \<open>JSON.stringify\<close>

definition hex_digit :: "nat \<Rightarrow> jschar" where
  "hex_digit d = (if d < 10 then of_nat (48 + d) else of_nat (87 + d))"

definition UnicodeEscape :: "jschar \<Rightarrow> jstring" where
  "UnicodeEscape c =
     [0x5C, 0x75, hex_digit (unat c div 4096), hex_digit (unat c div 256 mod 16),
      hex_digit (unat c div 16 mod 16), hex_digit (unat c mod 16)]"

definition is_high_surrogate :: "jschar \<Rightarrow> bool" where
  "is_high_surrogate c = (0xD800 \<le> c \<and> c \<le> 0xDBFF)"

definition is_low_surrogate :: "jschar \<Rightarrow> bool" where
  "is_low_surrogate c = (0xDC00 \<le> c \<and> c \<le> 0xDFFF)"

text \<open>The characters that QuoteJSONString writes as a two-character escape.\<close>

definition short_escape :: "jschar \<Rightarrow> jschar option" where
  "short_escape c =
     (if c = 0x08 then Some 0x62 else if c = 0x09 then Some 0x74
      else if c = 0x0A then Some 0x6E else if c = 0x0C then Some 0x66
      else if c = 0x0D then Some 0x72 else if c = 0x22 then Some 0x22
      else if c = 0x5C then Some 0x5C else None)"

fun quote_chars :: "jstring \<Rightarrow> jstring" where
  "quote_chars [] = []"
| "quote_chars (c # r) =
     (case short_escape c of
        Some e \<Rightarrow> [0x5C, e] @ quote_chars r
      | None \<Rightarrow>
          if c < 0x20 then UnicodeEscape c @ quote_chars r
          else if is_high_surrogate c then
            (case r of
               [] \<Rightarrow> UnicodeEscape c
             | c2 # r2 \<Rightarrow>
                 if is_low_surrogate c2 then c # c2 # quote_chars r2
                 else UnicodeEscape c @ quote_chars r)
          else if is_low_surrogate c then UnicodeEscape c @ quote_chars r
          else c # quote_chars r)"

definition QuoteJSONString :: "jstring \<Rightarrow> jstring" where
  "QuoteJSONString s = [0x22] @ quote_chars s @ [0x22]"

text \<open>SerializeJSONProperty, SerializeJSONArray and SerializeJSONObject: \<open>gap\<close> is the
  indentation unit and \<open>ind\<close> the current indentation. A number that is not finite is
  written as \<open>null\<close>. No value of the model has a \<open>toJSON\<close> method or is undefined.\<close>

fun ser :: "'n platform \<Rightarrow> jstring \<Rightarrow> jstring \<Rightarrow> 'n json \<Rightarrow> jstring"
and ser_elems :: "'n platform \<Rightarrow> jstring \<Rightarrow> jstring \<Rightarrow> 'n json list \<Rightarrow> jstring"
and ser_members :: "'n platform \<Rightarrow> jstring \<Rightarrow> jstring \<Rightarrow> (jstring \<times> 'n json) list \<Rightarrow> jstring"
where
  "ser E gap ind JNull = js ''null''"
| "ser E gap ind (JBool b) = (if b then js ''true'' else js ''false'')"
| "ser E gap ind (JNumber n) = (if isFinite E n then NumberToString E n else js ''null'')"
| "ser E gap ind (JString s) = QuoteJSONString s"
| "ser E gap ind (JArray xs) =
     (if xs = [] then js ''[]''
      else if gap = [] then [0x5B] @ ser_elems E gap ind xs @ [0x5D]
      else [0x5B, 0x0A] @ (ind @ gap) @ ser_elems E gap (ind @ gap) xs @ [0x0A] @ ind @ [0x5D])"
| "ser E gap ind (JObject kvs) =
     (if kvs = [] then js ''{}''
      else if gap = [] then [0x7B] @ ser_members E gap ind kvs @ [0x7D]
      else [0x7B, 0x0A] @ (ind @ gap) @ ser_members E gap (ind @ gap) kvs @ [0x0A] @ ind @ [0x7D])"
| "ser_elems E gap ind [] = []"
| "ser_elems E gap ind (x # xs) =
     ser E gap ind x
       @ (if xs = [] then []
          else (if gap = [] then [0x2C] else [0x2C, 0x0A] @ ind) @ ser_elems E gap ind xs)"
| "ser_members E gap ind [] = []"
| "ser_members E gap ind ((k, x) # kvs) =
     QuoteJSONString k @ (if gap = [] then [0x3A] else [0x3A, 0x20]) @ ser E gap ind x
       @ (if kvs = [] then []
          else (if gap = [] then [0x2C] else [0x2C, 0x0A] @ ind) @ ser_members E gap ind kvs)"

text \<open>The depth to which arrays and objects are nested in a value.\<close>

fun nesting :: "'n json \<Rightarrow> nat"
and nesting_elems :: "'n json list \<Rightarrow> nat"
and nesting_members :: "(jstring \<times> 'n json) list \<Rightarrow> nat"
where
  "nesting (JArray xs) = 1 + nesting_elems xs"
| "nesting (JObject kvs) = 1 + nesting_members kvs"
| "nesting v = 0"
| "nesting_elems [] = 0"
| "nesting_elems (x # xs) = max (nesting x) (nesting_elems xs)"
| "nesting_members [] = 0"
| "nesting_members ((k, x) # kvs) = max (nesting x) (nesting_members kvs)"

text \<open>\<open>JSON.stringify(value, null, space)\<close>: the serialisation recurses once for each
  level of nesting, and throws a \<open>RangeError\<close> when the stack is exhausted.\<close>

definition JSON_stringify :: "'n platform \<Rightarrow> 'n json \<Rightarrow> nat \<Rightarrow> thrown + jstring" where
  "JSON_stringify E v space =
     (if stackLimit E < nesting v then Inl (Error (rangeErrorMessage E))
      else Inr (ser E (replicate (min 10 space) 0x20) [] v))"

subsection \<open>Values of the engine, and what the round trip needs\<close>

text \<open>A value of the engine lists the keys of every object in property order,
  each key once.\<close>

definition js_ordered :: "jstring list \<Rightarrow> bool" where
  "js_ordered keys =
     (distinct keys \<and>
      sorted_wrt (<) (map dec_value (takeWhile is_array_index keys)) \<and>
      (\<forall>k \<in> set (dropWhile is_array_index keys). \<not> is_array_index k))"

fun js_value :: "'n json \<Rightarrow> bool" where
  "js_value (JArray xs) = (\<forall>x \<in> set xs. js_value x)"
| "js_value (JObject kvs) = (js_ordered (map fst kvs) \<and> (\<forall>(k, x) \<in> set kvs. js_value x))"
| "js_value v = True"

text \<open>A number survives serialisation when it is finite and the engine reads the string
  it writes for the number, a number token, as that number. Of the doubles these are
  the finite ones other than \<open>-0\<close>, which is written as \<open>0\<close>.\<close>

definition survives :: "'n platform \<Rightarrow> 'n \<Rightarrow> bool" where
  "survives E n =
     (isFinite E n \<and> is_json_number (NumberToString E n) \<and> ToNumber E (NumberToString E n) = n)"

fun numbers_survive :: "'n platform \<Rightarrow> 'n json \<Rightarrow> bool" where
  "numbers_survive E (JNumber n) = survives E n"
| "numbers_survive E (JArray xs) = (\<forall>x \<in> set xs. numbers_survive E x)"
| "numbers_survive E (JObject kvs) = (\<forall>(k, x) \<in> set kvs. numbers_survive E x)"
| "numbers_survive E v = True"

definition delim :: "jstring \<Rightarrow> bool" where
  "delim rest = (rest = [] \<or> \<not> is_numchar (hd rest))"

text \<open>Every serialised value starts with a character that is no white space, no comma
  and no closing bracket.\<close>

definition starts_value :: "jstring \<Rightarrow> bool" where
  "starts_value s =
     (case s of [] \<Rightarrow> False
      | c # r \<Rightarrow> \<not> is_ws c \<and> c \<noteq> 0x5D \<and> c \<noteq> 0x7D \<and> c \<noteq> 0x2C)"

text \<open>A parse with enough fuel does not run out of it and consumes input.\<close>

definition progress :: "'a presult \<Rightarrow> jstring \<Rightarrow> bool" where
  "progress res s = (res \<noteq> OutOfFuel \<and> (\<forall>v r. res = Ok v r \<longrightarrow> length r < length s))"

text \<open>A platform whose numbers are the integers, for examples.\<close>

definition intPlatform :: "int platform" where
  "intPlatform = \<lparr>ToNumber = id_value, NumberToString = toString, isFinite = (\<lambda>n. True),
                   stackLimit = 1000,
                   syntaxErrorMessage = (\<lambda>text. js ''Unexpected token''),
                   rangeErrorMessage = js ''Maximum call stack size exceeded''\<rparr>"

subsection \<open>An engine: numbers as IEEE 754 doubles\<close>

text \<open>
  The Number type: \<open>Dbl m e\<close> is the double of value \<open>m * 2^e\<close>, written with \<open>m\<close> odd (and
  \<open>Dbl 0 0\<close> for \<open>+0\<close>), where \<open>\<bar>m\<bar> < 2^53\<close>, \<open>- 1074 \<le> e\<close> and \<open>\<bar>m\<bar> * 2^e < 2^1024\<close>.
\<close>

datatype double = Dbl int int | NegZero | Infinity | NegInfinity | NaN

function normal :: "int \<Rightarrow> int \<Rightarrow> double" where
  "normal m e =
     (if m = 0 then Dbl 0 0
      else if even m then normal (m div 2) (e + 1)
      else Dbl m e)"
  by pat_completeness auto
termination by (relation "measure (\<lambda>(m, e). nat \<bar>m\<bar>)") auto

declare normal.simps [simp del]

function bit_length :: "int \<Rightarrow> int" where
  "bit_length n = (if n \<le> 0 then 0 else 1 + bit_length (n div 2))"
  by pat_completeness auto
termination by (relation "measure nat") auto

declare bit_length.simps [simp del]

text \<open>For positive \<open>a\<close> and \<open>b\<close>: the \<open>p\<close> with \<open>2^p \<le> a / b < 2^(p + 1)\<close>, which is the
  difference of the bit lengths or one less.\<close>

definition reaches_pow2 :: "int \<Rightarrow> int \<Rightarrow> int \<Rightarrow> bool" where
  "reaches_pow2 a b p = (if 0 \<le> p then b * 2 ^ nat p \<le> a else b \<le> a * 2 ^ nat (- p))"

definition floor_log2_from :: "int \<Rightarrow> int \<Rightarrow> int \<Rightarrow> int" where
  "floor_log2_from a b p = (if reaches_pow2 a b p then p else p - 1)"

definition floor_log2 :: "int \<Rightarrow> int \<Rightarrow> int" where
  "floor_log2 a b = floor_log2_from a b (bit_length a - bit_length b)"

text \<open>A quotient \<open>q\<close> with remainder \<open>r\<close> of a division by \<open>b\<close>, rounded to the nearest
  integer, a tie to the even one.\<close>

definition round_rem :: "int \<Rightarrow> int \<Rightarrow> int \<Rightarrow> int" where
  "round_rem q r b =
     (if 2 * r < b then q
      else if b < 2 * r then q + 1
      else if even q then q else q + 1)"

definition round_even :: "int \<Rightarrow> int \<Rightarrow> int" where
  "round_even a b = round_rem (a div b) (a mod b) b"

text \<open>The Number value for the rational \<open>a / b\<close>, negated when \<open>neg\<close>, where \<open>0 \<le> a\<close> and
  \<open>0 < b\<close>: the nearest double, a tie to the one with the even significand;
  \<open>2^1024\<close> counts as a double with an even significand and gives an infinity. A zero
  keeps the sign. The exponent \<open>e\<close> is that of the last bit of a significand of 53
  bits, and not below that of the subnormal numbers.\<close>

definition signed_zero :: "bool \<Rightarrow> double" where
  "signed_zero neg = (if neg then NegZero else Dbl 0 0)"

definition pack :: "bool \<Rightarrow> int \<Rightarrow> int \<Rightarrow> double" where
  "pack neg m e =
     (if m = 0 then signed_zero neg
      else if 971 < e \<or> (e = 971 \<and> 2 ^ 53 \<le> m)
      then (if neg then NegInfinity else Infinity)
      else normal (if neg then - m else m) e)"

definition round_at :: "bool \<Rightarrow> int \<Rightarrow> int \<Rightarrow> int \<Rightarrow> double" where
  "round_at neg a b e =
     pack neg (if 0 \<le> e then round_even a (b * 2 ^ nat e)
               else round_even (a * 2 ^ nat (- e)) b) e"

definition to_double :: "bool \<Rightarrow> int \<Rightarrow> int \<Rightarrow> double" where
  "to_double neg a b =
     (if a = 0 then signed_zero neg
      else round_at neg a b (max (- 1074) (floor_log2 a b - 52)))"

text \<open>The exponent part of a number token: what follows the digits of the fraction.\<close>

definition exponent_value :: "jstring \<Rightarrow> int" where
  "exponent_value r =
     (case r of
        [] \<Rightarrow> 0
      | c # r' \<Rightarrow>
          (case r' of
             [] \<Rightarrow> 0
           | s # x \<Rightarrow>
               if s = 0x2D then - int (dec_value x)
               else if s = 0x2B then int (dec_value x)
               else int (dec_value r')))"

text \<open>The value of a JSON number token, the only texts that \<open>JSON.parse\<close> converts to a
  number: the mathematical value of the literal, then the Number value for it, as the
  engines compute it (the standard also allows an engine to round the literal after its
  twentieth significant digit first). The model gives \<open>NaN\<close> for a text that is no such
  token.\<close>

definition decimal :: "bool \<Rightarrow> int \<Rightarrow> int \<Rightarrow> double" where
  "decimal neg d k =
     (if 0 \<le> k then to_double neg (d * 10 ^ nat k) 1 else to_double neg d (10 ^ nat (- k)))"

definition fraction_digits :: "jstring \<Rightarrow> jstring" where
  "fraction_digits r =
     (case r of [] \<Rightarrow> [] | c # r' \<Rightarrow> if c = 0x2E then takeWhile is_digit r' else [])"

definition after_fraction :: "jstring \<Rightarrow> jstring" where
  "after_fraction r =
     (case r of [] \<Rightarrow> [] | c # r' \<Rightarrow> if c = 0x2E then dropWhile is_digit r' else r)"

definition unsignedToNumber :: "bool \<Rightarrow> jstring \<Rightarrow> double" where
  "unsignedToNumber neg u =
     decimal neg
       (int (dec_value (takeWhile is_digit u @ fraction_digits (dropWhile is_digit u))))
       (exponent_value (after_fraction (dropWhile is_digit u))
          - int (length (fraction_digits (dropWhile is_digit u))))"

definition literalToNumber :: "jstring \<Rightarrow> double" where
  "literalToNumber t =
     (if \<not> is_json_number t then NaN
      else if hd t = 0x2D then unsignedToNumber True (tl t)
      else unsignedToNumber False t)"

function dec_length :: "int \<Rightarrow> int" where
  "dec_length n = (if n \<le> 0 then 0 else 1 + dec_length (n div 10))"
  by pat_completeness auto
termination by (relation "measure nat") auto

declare dec_length.simps [simp del]

text \<open>For positive \<open>a\<close> and \<open>b\<close>: the \<open>n\<close> with \<open>10^(n - 1) \<le> a / b < 10^n\<close>.\<close>

definition reaches_pow10 :: "int \<Rightarrow> int \<Rightarrow> int \<Rightarrow> bool" where
  "reaches_pow10 a b p = (if 0 \<le> p then b * 10 ^ nat p \<le> a else b \<le> a * 10 ^ nat (- p))"

definition dec_exponent_from :: "int \<Rightarrow> int \<Rightarrow> int \<Rightarrow> int" where
  "dec_exponent_from a b p = (if reaches_pow10 a b p then p + 1 else p)"

definition dec_exponent :: "int \<Rightarrow> int \<Rightarrow> int" where
  "dec_exponent a b = dec_exponent_from a b (dec_length a - dec_length b)"

text \<open>
  Number::toString of a positive double \<open>x = a / b\<close>: integers \<open>n\<close>, \<open>k\<close> and \<open>s\<close> with
  \<open>10^(k - 1) \<le> s < 10^k\<close> such that the Number value for \<open>s * 10^(n - k)\<close> is \<open>x\<close> and \<open>k\<close>
  is as small as possible; of several such \<open>s\<close> the one nearest to \<open>x\<close>, of two equally
  near the even one. For each \<open>k\<close> from 1 the search tries the two decimals of \<open>k\<close> digits
  that enclose \<open>x\<close>, the nearer first; seventeen digits always suffice for a double.
\<close>

definition pick_digits :: "double \<Rightarrow> int \<Rightarrow> int \<Rightarrow> int \<Rightarrow> int option" where
  "pick_digits x j near far =
     (if decimal False near j = x then Some near
      else if decimal False far j = x then Some far
      else None)"

definition other :: "int \<Rightarrow> int \<Rightarrow> int" where
  "other lo near = (if near = lo then lo + 1 else lo)"

definition near_digits :: "int \<Rightarrow> int \<Rightarrow> int \<Rightarrow> int \<Rightarrow> int" where
  "near_digits a b n k =
     (if n \<le> k then round_even (a * 10 ^ nat (k - n)) b
      else round_even a (b * 10 ^ nat (n - k)))"

definition low_digits :: "int \<Rightarrow> int \<Rightarrow> int \<Rightarrow> int \<Rightarrow> int" where
  "low_digits a b n k =
     (if n \<le> k then (a * 10 ^ nat (k - n)) div b else a div (b * 10 ^ nat (n - k)))"

function shortest :: "int \<Rightarrow> int \<Rightarrow> double \<Rightarrow> int \<Rightarrow> int \<Rightarrow> int \<times> int \<times> int" where
  "shortest a b x n k =
     (case pick_digits x (n - k) (near_digits a b n k)
             (other (low_digits a b n k) (near_digits a b n k)) of
        Some s \<Rightarrow> (n, k, s)
      | None \<Rightarrow>
          if 17 \<le> k then (n, k, near_digits a b n k)
          else shortest a b x n (k + 1))"
  by pat_completeness auto
termination by (relation "measure (\<lambda>(a, b, x, n, k). nat (17 - k))") auto

declare shortest.simps [simp del]

text \<open>When the digits found are those of \<open>10^k\<close>, the number is written with the digits
  of \<open>10^(k - 1)\<close> and the next exponent.\<close>

definition carry :: "int \<times> int \<times> int \<Rightarrow> int \<times> int \<times> int" where
  "carry nks =
     (case nks of (n, k, s) \<Rightarrow>
        if s = 10 ^ nat k then (n + 1, k, 10 ^ nat (k - 1)) else (n, k, s))"

definition exponent_part :: "int \<Rightarrow> jstring" where
  "exponent_part ex = [0x65, if ex < 0 then 0x2D else 0x2B] @ nat_to_string (nat \<bar>ex\<bar>)"

definition layout :: "int \<times> int \<times> int \<Rightarrow> jstring" where
  "layout nks =
     (case nks of (n, k, s) \<Rightarrow>
        if k \<le> n \<and> n \<le> 21 then nat_to_string (nat s) @ replicate (nat (n - k)) 0x30
        else if 0 < n \<and> n \<le> 21
        then take (nat n) (nat_to_string (nat s)) @ [0x2E] @ drop (nat n) (nat_to_string (nat s))
        else if - 6 < n \<and> n \<le> 0
        then [0x30, 0x2E] @ replicate (nat (- n)) 0x30 @ nat_to_string (nat s)
        else if k = 1 then nat_to_string (nat s) @ exponent_part (n - 1)
        else take 1 (nat_to_string (nat s)) @ [0x2E] @ drop 1 (nat_to_string (nat s))
               @ exponent_part (n - 1))"

definition ratioToString :: "int \<Rightarrow> int \<Rightarrow> double \<Rightarrow> jstring" where
  "ratioToString a b x = layout (carry (shortest a b x (dec_exponent a b) 1))"

definition positiveToString :: "int \<Rightarrow> int \<Rightarrow> jstring" where
  "positiveToString m e =
     (if 0 \<le> e then ratioToString (m * 2 ^ nat e) 1 (Dbl m e)
      else ratioToString m (2 ^ nat (- e)) (Dbl m e))"

fun Number_toString :: "double \<Rightarrow> jstring" where
  "Number_toString NaN = js ''NaN''"
| "Number_toString NegZero = js ''0''"
| "Number_toString Infinity = js ''Infinity''"
| "Number_toString NegInfinity = js ''-Infinity''"
| "Number_toString (Dbl m e) =
     (if m = 0 then js ''0''
      else if m < 0 then 0x2D # positiveToString (- m) e
      else positiveToString m e)"

fun Number_isFinite :: "double \<Rightarrow> bool" where
  "Number_isFinite (Dbl m e) = True"
| "Number_isFinite NegZero = True"
| "Number_isFinite x = False"

text \<open>An engine for the examples: its numbers are the doubles, its stack holds a
  thousand levels of nesting, and its error messages are short.\<close>

definition jsPlatform :: "double platform" where
  "jsPlatform = \<lparr>ToNumber = literalToNumber, NumberToString = Number_toString,
                  isFinite = Number_isFinite, stackLimit = 1000,
                  syntaxErrorMessage = (\<lambda>text. js ''Unexpected token''),
                  rangeErrorMessage = js ''Maximum call stack size exceeded''\<rparr>"

section \<open>components/JsonNode.tsx\<close>

text \<open>
  A mounted \<open>JsonNode\<close>: its props (\<open>keyName\<close>, \<open>value\<close>, \<open>depth\<close>, \<open>isLast\<close>), its
  \<open>expanded\<close> state, the values of \<open>expandAllSignal\<close> and \<open>collapseAllSignal\<close> its two
  effects last ran on, and the nodes mounted below it. Children are rendered, and so
  mounted, only while the node is an expanded non-empty container.
\<close>

datatype 'n mnode =
  MNode (keyName: "jstring option") (val: "'n json") (depth: nat) (isLast: bool)
        (expanded: bool) (depExpand: nat) (depCollapse: nat) (kids: "'n mnode list")

definition isExpandable :: "'n json \<Rightarrow> bool" where
  "isExpandable v = (getDataType v = OBJECT \<or> getDataType v = ARRAY)"

definition isEmpty :: "'n json \<Rightarrow> bool" where
  "isEmpty v = (isExpandable v \<and> length (entries v) = 0)"

text \<open>The two effects, and the initial value of the state.\<close>

definition expandEffect :: "nat \<Rightarrow> bool \<Rightarrow> bool" where
  "expandEffect expandAllSignal ex = (if expandAllSignal > 0 then True else ex)"

definition collapseEffect :: "nat \<Rightarrow> bool \<Rightarrow> bool" where
  "collapseEffect collapseAllSignal ex = (if collapseAllSignal > 0 then False else ex)"

definition initialExpanded :: "nat \<Rightarrow> bool" where
  "initialExpanded d = (d < 2)"

text \<open>A node that mounts runs both effects, in the order of their declaration.\<close>

definition mountExpanded :: "nat \<Rightarrow> nat \<Rightarrow> nat \<Rightarrow> bool" where
  "mountExpanded e c d = collapseEffect c (expandEffect e (initialExpanded d))"

text \<open>Mounting a node with the signal values \<open>e\<close> and \<open>c\<close>, once its effects have run
  and the nodes below have settled: the children of an array are mounted without a key
  name, those of an object under their key, the child at the last index as the last.\<close>

fun mountNode :: "nat \<Rightarrow> nat \<Rightarrow> jstring option \<Rightarrow> 'n json \<Rightarrow> nat \<Rightarrow> bool \<Rightarrow> 'n mnode"
and mountElems :: "nat \<Rightarrow> nat \<Rightarrow> nat \<Rightarrow> nat \<Rightarrow> nat \<Rightarrow> 'n json list \<Rightarrow> 'n mnode list"
and mountMembers :: "nat \<Rightarrow> nat \<Rightarrow> nat \<Rightarrow> nat \<Rightarrow> nat \<Rightarrow> (jstring \<times> 'n json) list \<Rightarrow> 'n mnode list"
where
  "mountNode e c k (JArray xs) d l =
     (let ex = mountExpanded e c d
      in MNode k (JArray xs) d l ex e c
           (if ex \<and> \<not> isEmpty (JArray xs) then mountElems e c (d + 1) (length xs) 0 xs else []))"
| "mountNode e c k (JObject kvs) d l =
     (let ex = mountExpanded e c d
      in MNode k (JObject kvs) d l ex e c
           (if ex \<and> \<not> isEmpty (JObject kvs) then mountMembers e c (d + 1) (length kvs) 0 kvs else []))"
| "mountNode e c k v d l = MNode k v d l (mountExpanded e c d) e c []"
| "mountElems e c d n i [] = []"
| "mountElems e c d n i (x # xs) =
     mountNode e c None x d (i = n - 1) # mountElems e c d n (i + 1) xs"
| "mountMembers e c d n i [] = []"
| "mountMembers e c d n i ((key, x) # kvs) =
     mountNode e c (Some key) x d (i = n - 1) # mountMembers e c d n (i + 1) kvs"

fun mountChildren :: "nat \<Rightarrow> nat \<Rightarrow> 'n json \<Rightarrow> nat \<Rightarrow> 'n mnode list" where
  "mountChildren e c (JArray xs) d = mountElems e c d (length xs) 0 xs"
| "mountChildren e c (JObject kvs) d = mountMembers e c d (length kvs) 0 kvs"
| "mountChildren e c v d = []"

text \<open>A render of a mounted node with new signal values: an effect runs when the value
  it depends on differs from the one it last ran on.\<close>

definition nodeEffects :: "nat \<Rightarrow> nat \<Rightarrow> bool \<Rightarrow> nat \<Rightarrow> nat \<Rightarrow> bool" where
  "nodeEffects e c ex de dc =
     (let ex1 = (if e \<noteq> de then expandEffect e ex else ex);
          ex2 = (if c \<noteq> dc then collapseEffect c ex1 else ex1)
      in ex2)"

fun rerender :: "nat \<Rightarrow> nat \<Rightarrow> 'n mnode \<Rightarrow> 'n mnode" where
  "rerender e c (MNode k v d l ex de dc ks) =
     (let ex' = nodeEffects e c ex de dc
      in MNode k v d l ex' e c
           (if ex' \<and> isExpandable v \<and> \<not> isEmpty v
            then (if ex then map (rerender e c) ks else mountChildren e c v (d + 1))
            else []))"

text \<open>A click on the header row of a node, and of the node at a path of child indices.\<close>

fun handleToggle :: "'n mnode \<Rightarrow> 'n mnode" where
  "handleToggle (MNode k v d l ex de dc ks) =
     MNode k v d l (\<not> ex) de dc
       (if \<not> ex \<and> isExpandable v \<and> \<not> isEmpty v then mountChildren de dc v (d + 1) else [])"

fun toggleAt :: "nat list \<Rightarrow> 'n mnode \<Rightarrow> 'n mnode" where
  "toggleAt [] m = handleToggle m"
| "toggleAt (i # p) (MNode k v d l ex de dc ks) =
     MNode k v d l ex de dc (if i < length ks then ks[i := toggleAt p (ks ! i)] else ks)"


text \<open>What a node renders: rows of spans. The header row of a container, then the
  rows of its children and the row of its closing bracket when it is expanded and not
  empty; one row for any other value.\<close>

datatype span =
    Toggle bool
  | Key jstring
  | Colon
  | Literal DataType jstring
  | Bracket jschar
  | Preview jstring
  | Comma

text \<open>\<open>String(value)\<close>, which the code calls on primitive values only; \<open>ns\<close> is the
  engine's conversion of a number to a string.\<close>

fun String :: "('n \<Rightarrow> jstring) \<Rightarrow> 'n json \<Rightarrow> jstring" where
  "String ns (JString s) = s"
| "String ns (JNumber n) = ns n"
| "String ns (JBool b) = (if b then js ''true'' else js ''false'')"
| "String ns JNull = js ''null''"

definition renderValue :: "('n \<Rightarrow> jstring) \<Rightarrow> 'n json \<Rightarrow> span list" where
  "renderValue ns v =
     (case getDataType v of
        STRING \<Rightarrow> [Literal STRING ([0x22] @ String ns v @ [0x22])]
      | NUMBER \<Rightarrow> [Literal NUMBER (String ns v)]
      | BOOLEAN \<Rightarrow> [Literal BOOLEAN (String ns v)]
      | NULL \<Rightarrow> [Literal NULL (js ''null'')]
      | OBJECT \<Rightarrow> []
      | ARRAY \<Rightarrow> []
      | UNKNOWN \<Rightarrow> [Literal UNKNOWN (js ''unknown'')])"

definition renderKey :: "jstring option \<Rightarrow> span list" where
  "renderKey k = (case k of None \<Rightarrow> [] | Some key \<Rightarrow> [Key ([0x22] @ key @ [0x22])])"

definition getPreview :: "'n json \<Rightarrow> span list" where
  "getPreview v =
     (if getDataType v = ARRAY
      then [Preview (js ''Array('' @ toString (int (length (entries v))) @ js '')'')]
      else if getDataType v = OBJECT
      then [Preview (js ''{ '' @ toString (int (length (entries v))) @ js '' items }'')]
      else [])"

definition openingBracket :: "'n json \<Rightarrow> jschar" where
  "openingBracket v = (if getDataType v = ARRAY then 0x5B else 0x7B)"

definition closingBracket :: "'n json \<Rightarrow> jschar" where
  "closingBracket v = (if getDataType v = ARRAY then 0x5D else 0x7D)"

fun render :: "('n \<Rightarrow> jstring) \<Rightarrow> 'n mnode \<Rightarrow> span list list" where
  "render ns (MNode k v d l ex de dc ks) =
     (if \<not> isExpandable v
      then [renderKey k @ (if k \<noteq> None then [Colon] else []) @ renderValue ns v
              @ (if \<not> l then [Comma] else [])]
      else
        ((if \<not> isEmpty v then [Toggle ex] else [])
           @ renderKey k @ (if k \<noteq> None then [Colon] else [])
           @ [Bracket (openingBracket v)]
           @ (if \<not> ex \<and> \<not> isEmpty v then getPreview v else [])
           @ (if \<not> ex \<and> \<not> isEmpty v then [Bracket (closingBracket v)] else [])
           @ (if isEmpty v then [Bracket (closingBracket v)] else [])
           @ (if \<not> l \<and> (\<not> ex \<or> isEmpty v) then [Comma] else []))
        # (if ex \<and> \<not> isEmpty v
           then concat (map (render ns) ks)
                  @ [[Bracket (closingBracket v)] @ (if \<not> l then [Comma] else [])]
           else []))"

text \<open>Properties of whole trees.\<close>

fun siblings_ok :: "'n mnode \<Rightarrow> bool" where
  "siblings_ok (MNode k v d l ex de dc ks) =
     ((\<forall>i < length ks. isLast (ks ! i) = (i = length ks - 1)) \<and>
      (\<forall>m \<in> set ks. siblings_ok m))"

fun default_expanded :: "'n mnode \<Rightarrow> bool" where
  "default_expanded (MNode k v d l ex de dc ks) =
     (ex = (d < 2) \<and> (\<forall>m \<in> set ks. depth m = d + 1 \<and> default_expanded m))"

fun all_nodes :: "('n mnode \<Rightarrow> bool) \<Rightarrow> 'n mnode \<Rightarrow> bool" where
  "all_nodes P (MNode k v d l ex de dc ks) =
     (P (MNode k v d l ex de dc ks) \<and> (\<forall>m \<in> set ks. all_nodes P m))"

definition doc_abc :: "int json" where
  "doc_abc = JObject [(js ''a'', JObject [(js ''b'', JObject [(js ''c'', JNumber 1)])])]"

definition doc_12 :: "int json" where
  "doc_12 = JArray [JNumber 1, JNumber 2]"

fun node_at :: "nat list \<Rightarrow> 'n mnode \<Rightarrow> 'n mnode option" where
  "node_at [] m = Some m"
| "node_at (i # p) (MNode k v d l ex de dc ks) =
     (if i < length ks then node_at p (ks ! i) else None)"

text \<open>What holds of every node of a tree that the viewer has rendered with the signal
  values \<open>e\<close> and \<open>c\<close>: its effects last ran on these values, and it has children mounted
  only while it is an expanded, non-empty container.\<close>

definition node_inv :: "nat \<Rightarrow> nat \<Rightarrow> 'n mnode \<Rightarrow> bool" where
  "node_inv e c m =
     (depExpand m = e \<and> depCollapse m = c \<and>
      (kids m \<noteq> [] \<longrightarrow> expanded m \<and> isExpandable (val m) \<and> \<not> isEmpty (val m)))"


text \<open>
  A render of a mounted node with new props, as when the viewer is given new data.
  The node keeps its state, and its effects run as in any render. The children are
  keyed by their index: a child at an index that was mounted is updated in place, a
  child at a new index mounts, and the children beyond the new length unmount.
\<close>

fun childProps :: "'n json \<Rightarrow> (jstring option \<times> 'n json) list" where
  "childProps (JArray xs) = map (\<lambda>x. (None, x)) xs"
| "childProps (JObject kvs) = map (\<lambda>(key, x). (Some key, x)) kvs"
| "childProps v = []"

fun updateNode ::
  "nat \<Rightarrow> nat \<Rightarrow> jstring option \<Rightarrow> 'n json \<Rightarrow> nat \<Rightarrow> bool \<Rightarrow> 'n mnode \<Rightarrow> 'n mnode"
and updateChildren ::
  "nat \<Rightarrow> nat \<Rightarrow> nat \<Rightarrow> nat \<Rightarrow> nat \<Rightarrow> (jstring option \<times> 'n json) list \<Rightarrow> 'n mnode list
     \<Rightarrow> 'n mnode list"
where
  "updateNode e c k v d l (MNode k0 v0 d0 l0 ex de dc ks) =
     (let ex' = nodeEffects e c ex de dc
      in MNode k v d l ex' e c
           (if ex' \<and> isExpandable v \<and> \<not> isEmpty v
            then (if ex then updateChildren e c (d + 1) (length (childProps v)) 0 (childProps v) ks
                  else mountChildren e c v (d + 1))
            else []))"
| "updateChildren e c d n i [] ms = []"
| "updateChildren e c d n i ((k, x) # ps) [] =
     mountNode e c k x d (i = n - 1) # updateChildren e c d n (i + 1) ps []"
| "updateChildren e c d n i ((k, x) # ps) (m # ms) =
     updateNode e c k x d (i = n - 1) m # updateChildren e c d n (i + 1) ps ms"
section \<open>components/JsonViewer.tsx: the loaded state and its toolbar\<close>

text \<open>The viewer holds the two counters and passes them to the root node; a click on
  Expand or Collapse adds one to a counter, and the tree renders with the new values.\<close>

record 'n LoadedView =
  expandSignal :: nat
  collapseSignal :: nat
  root :: "'n mnode"

text \<open>The viewer of a tab when it first shows a tree for \<open>data\<close>, its counters at 0.\<close>

definition mountViewer :: "'n json \<Rightarrow> 'n LoadedView" where
  "mountViewer data =
     \<lparr>expandSignal = 0, collapseSignal = 0, root = mountNode 0 0 None data 0 True\<rparr>"

definition clickExpand :: "'n LoadedView \<Rightarrow> 'n LoadedView" where
  "clickExpand V =
     (let e = expandSignal V + 1
      in V\<lparr>expandSignal := e, root := rerender e (collapseSignal V) (root V)\<rparr>)"

definition clickCollapse :: "'n LoadedView \<Rightarrow> 'n LoadedView" where
  "clickCollapse V =
     (let c = collapseSignal V + 1
      in V\<lparr>collapseSignal := c, root := rerender (expandSignal V) c (root V)\<rparr>)"

definition clickToggle :: "nat list \<Rightarrow> 'n LoadedView \<Rightarrow> 'n LoadedView" where
  "clickToggle p V = V\<lparr>root := toggleAt p (root V)\<rparr>"

definition view_inv :: "'n LoadedView \<Rightarrow> bool" where
  "view_inv V = all_nodes (node_inv (expandSignal V) (collapseSignal V)) (root V)"

text \<open>Sample documents and nodes.\<close>

definition view_abc :: "int LoadedView" where
  "view_abc = mountViewer doc_abc"

definition node_b :: "int mnode" where
  "node_b = MNode (Some (js ''b'')) (JObject [(js ''c'', JNumber 1)]) 2 True False 0 0 []"

definition row_a :: "int mnode" where
  "row_a = MNode (Some (js ''a'')) (JArray [JNull]) 1 False True 0 0
             [MNode None JNull 2 True False 0 0 []]"

section \<open>The application shell: tabs\<close>

record Tab =
  tab_id :: jstring
  title :: jstring
  content :: jstring

text \<open>The tab list and the active id; \<open>now\<close> below is what \<open>Date.now()\<close> returns when the
  operation calls it.\<close>

record App =
  tabs :: "Tab list"
  activeTabId :: jstring

definition addTab :: "int \<Rightarrow> App \<Rightarrow> App" where
  "addTab now s =
     (let newId = toString now;
          newTab = \<lparr>tab_id = newId,
                    title = js ''Tab '' @ toString (int (length (tabs s) + 1)),
                    content = []\<rparr>
      in s\<lparr>tabs := tabs s @ [newTab], activeTabId := newId\<rparr>)"

definition closeTab :: "int \<Rightarrow> jstring \<Rightarrow> App \<Rightarrow> App" where
  "closeTab now i s =
     (let newTabs = filter (\<lambda>t. tab_id t \<noteq> i) (tabs s)
      in if length newTabs = 0
         then (let newId = toString now
               in s\<lparr>tabs := [\<lparr>tab_id = newId, title = js ''Tab 1'', content = []\<rparr>],
                     activeTabId := newId\<rparr>)
         else if activeTabId s = i
              then s\<lparr>tabs := newTabs,
                     activeTabId := tab_id (newTabs ! (length newTabs - 1))\<rparr>
              else s\<lparr>tabs := newTabs\<rparr>)"

definition switchTab :: "jstring \<Rightarrow> App \<Rightarrow> App" where
  "switchTab i s = s\<lparr>activeTabId := i\<rparr>"

datatype tab_op = AddTab int | CloseTab int jstring | SwitchTab jstring

fun apply_op :: "tab_op \<Rightarrow> App \<Rightarrow> App" where
  "apply_op (AddTab now) s = addTab now s"
| "apply_op (CloseTab now i) s = closeTab now i s"
| "apply_op (SwitchTab i) s = switchTab i s"

text \<open>The tab bar offers the close button and the switch click only on the tabs it
  renders, so these two operations always name an id of the current list.\<close>

fun enabled :: "tab_op \<Rightarrow> App \<Rightarrow> bool" where
  "enabled (AddTab now) s = True"
| "enabled (CloseTab now i) s = (i \<in> set (map tab_id (tabs s)))"
| "enabled (SwitchTab i) s = (i \<in> set (map tab_id (tabs s)))"

fun run :: "tab_op list \<Rightarrow> App \<Rightarrow> App" where
  "run [] s = s"
| "run (x # xs) s = run xs (apply_op x s)"

fun valid_run :: "tab_op list \<Rightarrow> App \<Rightarrow> bool" where
  "valid_run [] s = True"
| "valid_run (x # xs) s = (enabled x s \<and> valid_run xs (apply_op x s))"

text \<open>The readings of the clock that a run takes: \<open>addTab\<close> calls \<open>Date.now()\<close> every
  time, \<open>closeTab\<close> only when no tab remains. These are the tab creations.\<close>

fun readings :: "tab_op list \<Rightarrow> App \<Rightarrow> int list" where
  "readings [] s = []"
| "readings (AddTab now # xs) s = now # readings xs (addTab now s)"
| "readings (CloseTab now i # xs) s =
     (if filter (\<lambda>t. tab_id t \<noteq> i) (tabs s) = [] then [now] else [])
       @ readings xs (closeTab now i s)"
| "readings (SwitchTab i # xs) s = readings xs (switchTab i s)"

text \<open>The ids of all tabs that exist at some moment of a run.\<close>

fun ids_used :: "tab_op list \<Rightarrow> App \<Rightarrow> jstring set" where
  "ids_used [] s = set (map tab_id (tabs s))"
| "ids_used (x # xs) s = set (map tab_id (tabs s)) \<union> ids_used xs (apply_op x s)"

definition tabs_ok :: "App \<Rightarrow> bool" where
  "tabs_ok s = (tabs s \<noteq> [] \<and> activeTabId s \<in> set (map tab_id (tabs s)))"

text \<open>The initial state, for any default content of the first tab.\<close>

definition initialApp :: "jstring \<Rightarrow> App" where
  "initialApp d = \<lparr>tabs = [\<lparr>tab_id = js ''1'', title = js ''Tab 1'', content = d\<rparr>],
                   activeTabId = js ''1''\<rparr>"

text \<open>Ids in creation order, compared by numeric value: strictly or not.\<close>

definition ord_rel :: "bool \<Rightarrow> int \<Rightarrow> int \<Rightarrow> bool" where
  "ord_rel strict a b = (if strict then a < b else a \<le> b)"

definition ids_sorted :: "bool \<Rightarrow> int \<Rightarrow> App \<Rightarrow> bool" where
  "ids_sorted strict b s =
     (sorted_wrt (ord_rel strict) (map (id_value \<circ> tab_id) (tabs s)) \<and>
      (\<forall>t \<in> set (tabs s). id_value (tab_id t) \<le> b))"

definition ids_below :: "int \<Rightarrow> App \<Rightarrow> bool" where
  "ids_below b s = (\<forall>t \<in> set (tabs s). id_value (tab_id t) \<le> b)"

text \<open>A sample session: open a tab, go back to the first, close it, close the other.\<close>

definition ops0 :: "tab_op list" where
  "ops0 = [AddTab 1730000000000, SwitchTab (js ''1''), CloseTab 1730000000500 (js ''1''),
           CloseTab 1730000000900 (js ''1730000000000'')]"

definition twoTabs :: App where
  "twoTabs = addTab 1730000000000 (initialApp [])"

text \<open>Closing the only tab within the millisecond in which it was created.\<close>

definition ops1 :: "tab_op list" where
  "ops1 = [CloseTab 1730000000000 (js ''1''), CloseTab 1730000000000 (js ''1730000000000'')]"

text \<open>Open a tab, close the first at a reading that is not taken, open another.\<close>

definition ops2 :: "tab_op list" where
  "ops2 = [AddTab 1730000000000, CloseTab 1729999999999 (js ''1''), AddTab 1730000000500]"

section \<open>utils/jsonUtils.ts\<close>

record 'n ParseResult =
  parsed :: "'n json option"
  error :: "jstring option"

text \<open>\<open>parsed\<close> is \<open>None\<close> for \<open>undefined\<close>, \<open>error\<close> is \<open>None\<close> for \<open>null\<close>. The \<open>catch\<close>
  takes the message of an \<open>Error\<close> and the text "Invalid JSON" for any other thrown value.\<close>

definition safeJsonParse :: "'n platform \<Rightarrow> jstring \<Rightarrow> 'n ParseResult" where
  "safeJsonParse E input =
     (case JSON_parse E input of
        Inr p \<Rightarrow> \<lparr>parsed = Some p, error = None\<rparr>
      | Inl err \<Rightarrow>
          (let errorMessage = (case err of Error message \<Rightarrow> message
                                         | NonError \<Rightarrow> js ''Invalid JSON'')
           in \<lparr>parsed = None, error = Some errorMessage\<rparr>))"



section \<open>components/JsonNode.tsx: copying a value\<close>



section \<open>components/JsonViewer.tsx: the three states\<close>

datatype 'n view = ErrorState jstring | EmptyState | LoadedState "'n LoadedView"

text \<open>
  A render of the viewer of a tab with the props \<open>data\<close> and \<open>error\<close>. The viewer holds
  its two counters, \<open>e\<close> and \<open>c\<close>, in every state, and its root node stays mounted while
  it shows the tree: \<open>old\<close> is the root node of the previous render, if that showed the tree,
  and is then updated in place; otherwise the root node mounts. In \<open>if (error)\<close>, \<open>null\<close>
  and the empty string are falsy.
\<close>

definition JsonViewer ::
  "nat \<Rightarrow> nat \<Rightarrow> 'n mnode option \<Rightarrow> 'n json option \<Rightarrow> jstring option \<Rightarrow> 'n view" where
  "JsonViewer e c old data err =
     (case (case err of None \<Rightarrow> None | Some m \<Rightarrow> if m = [] then None else Some m) of
        Some m \<Rightarrow> ErrorState m
      | None \<Rightarrow>
          (case data of
             None \<Rightarrow> EmptyState
           | Some d \<Rightarrow>
               LoadedState
                 \<lparr>expandSignal = e, collapseSignal = c,
                  root = (case old of
                            None \<Rightarrow> mountNode e c None d 0 True
                          | Some m \<Rightarrow> updateNode e c None d 0 True m)\<rparr>))"

text \<open>The root node of the tree that a view shows, and the rows of that tree.\<close>

fun viewRoot :: "'n view \<Rightarrow> 'n mnode option" where
  "viewRoot (LoadedState V) = Some (root V)"
| "viewRoot (ErrorState m) = None"
| "viewRoot EmptyState = None"

definition treeRows :: "('n \<Rightarrow> jstring) \<Rightarrow> 'n view \<Rightarrow> span list list option" where
  "treeRows ns view = map_option (render ns) (viewRoot view)"

section \<open>The application shell: parsing the active tab, pasting\<close>

text \<open>\<open>String.prototype.trim\<close> strips white space and line terminators.\<close>

definition isWhiteSpace :: "jschar \<Rightarrow> bool" where
  "isWhiteSpace c =
     (c = 0x09 \<or> c = 0x0A \<or> c = 0x0B \<or> c = 0x0C \<or> c = 0x0D \<or> c = 0x20 \<or> c = 0xA0 \<or>
      c = 0x1680 \<or> (0x2000 \<le> c \<and> c \<le> 0x200A) \<or> c = 0x2028 \<or> c = 0x2029 \<or>
      c = 0x202F \<or> c = 0x205F \<or> c = 0x3000 \<or> c = 0xFEFF)"

definition trim :: "jstring \<Rightarrow> jstring" where
  "trim s = rev (dropWhile isWhiteSpace (rev (dropWhile isWhiteSpace s)))"

definition parseEffect :: "'n platform \<Rightarrow> jstring \<Rightarrow> 'n ParseResult" where
  "parseEffect E txt =
     (if trim txt = [] then \<lparr>parsed = None, error = None\<rparr>
      else safeJsonParse E txt)"

text \<open>What the viewer of the active tab shows for the content of the tab, once the
  effect has run: the viewer renders with what the effect has set.\<close>

definition contentView ::
  "'n platform \<Rightarrow> nat \<Rightarrow> nat \<Rightarrow> 'n mnode option \<Rightarrow> jstring \<Rightarrow> 'n view" where
  "contentView E e c old txt =
     (let r = parseEffect E txt in JsonViewer e c old (parsed r) (error r))"

definition updateTabContent :: "jstring \<Rightarrow> jstring \<Rightarrow> App \<Rightarrow> App" where
  "updateTabContent i newContent s =
     s\<lparr>tabs := map (\<lambda>tab. if tab_id tab = i then tab\<lparr>content := newContent\<rparr> else tab) (tabs s)\<rparr>"

datatype toast_type = error_toast | success_toast

record Toast =
  msg :: jstring
  toast_type :: toast_type

text \<open>What the clipboard does when read: there is no clipboard object, or \<open>readText\<close>
  rejects (permission denied), or it resolves to a text.\<close>

datatype clipboard_read = ClipboardUnavailable | ReadRejects thrown | ReadResolves jstring

text \<open>The body of the \<open>try\<close>: the text to paste, or what was thrown.\<close>

definition readClipboard :: "clipboard_read \<Rightarrow> thrown + jstring" where
  "readClipboard c =
     (case c of
        ClipboardUnavailable \<Rightarrow> Inl (Error (js ''Clipboard API unavailable''))
      | ReadRejects err \<Rightarrow> Inl err
      | ReadResolves text \<Rightarrow>
          if text = [] then Inl (Error (js ''Clipboard is empty'')) else Inr text)"

text \<open>The new state, the toast shown, and what \<open>console.error\<close> logged.\<close>

definition handlePasteFromClipboard :: "clipboard_read \<Rightarrow> App \<Rightarrow> App \<times> Toast \<times> thrown option" where
  "handlePasteFromClipboard c s =
     (case readClipboard c of
        Inr text \<Rightarrow>
          (updateTabContent (activeTabId s) text s,
           \<lparr>msg = js ''Pasted from clipboard!'', toast_type = success_toast\<rparr>, None)
      | Inl err \<Rightarrow>
          (s, \<lparr>msg = js ''Browser blocked access. Please press Ctrl + V'',
                toast_type = error_toast\<rparr>, Some err))"

definition handleClear :: "App \<Rightarrow> App \<times> Toast" where
  "handleClear s =
     (updateTabContent (activeTabId s) [] s,
      \<lparr>msg = js ''Cleared workspace'', toast_type = success_toast\<rparr>)"

definition read_failed :: "clipboard_read \<Rightarrow> bool" where
  "read_failed c = (case readClipboard c of Inl err \<Rightarrow> True | Inr text \<Rightarrow> False)"


text \<open>The tree of the document \<open>[[7]]\<close> after Expand All: a viewer that has state.\<close>

definition tree_7 :: "double mnode" where
  "tree_7 = rerender 1 0 (mountNode 0 0 None (JArray [JArray [JNumber (Dbl 7 0)]]) 0 True)"


section \<open>Lemmas about strings and tabs\<close>

lemma unat_digit_char: "d < 10 \<Longrightarrow> unat (digit_char d) = 48 + d"
  unfolding digit_char_def by (simp only: unat_of_nat) simp

lemma dec_value_snoc: "dec_value (s @ [c]) = 10 * dec_value s + (unat c - 48)"
  by (simp add: dec_value_def)

lemma dec_value_nat_to_string: "dec_value (nat_to_string n) = n"
proof (induction n rule: nat_to_string.induct)
  case (1 n)
  show ?case
  proof (cases "n < 10")
    case True
    then show ?thesis
      by (simp add: nat_to_string.simps [of n] dec_value_def unat_digit_char)
  next
    case False
    with 1 have "dec_value (nat_to_string (n div 10)) = n div 10" by simp
    with False show ?thesis
      by (simp add: nat_to_string.simps [of n] dec_value_snoc unat_digit_char)
  qed
qed

lemma nat_to_string_nonempty: "nat_to_string n \<noteq> []"
  by (subst nat_to_string.simps) simp

lemma hd_nat_to_string: "hd (nat_to_string n) \<noteq> 0x2D"
proof (induction n rule: nat_to_string.induct)
  case (1 n)
  show ?case
  proof (cases "n < 10")
    case True
    have "unat (digit_char n) \<noteq> unat (0x2D :: jschar)"
      using True by (simp add: unat_digit_char)
    then have "digit_char n \<noteq> 0x2D" by auto
    then show ?thesis using True by (simp add: nat_to_string.simps [of n])
  next
    case False
    with 1 show ?thesis
      by (simp add: nat_to_string.simps [of n] nat_to_string_nonempty)
  qed
qed

lemma id_value_toString: "id_value (toString i) = i"
proof (cases "i < 0")
  case True
  then show ?thesis by (simp add: id_value_def toString_def dec_value_nat_to_string)
next
  case False
  obtain c r where cr: "nat_to_string (nat i) = c # r"
    using nat_to_string_nonempty [of "nat i"] by (cases "nat_to_string (nat i)") auto
  with hd_nat_to_string [of "nat i"] have "c \<noteq> 0x2D" by simp
  with False cr show ?thesis
    using dec_value_nat_to_string [of "nat i"]
    by (simp add: id_value_def toString_def)
qed

lemma tabs_ok_addTab: "tabs_ok (addTab now s)"
  by (simp add: tabs_ok_def addTab_def Let_def)

lemma tabs_ok_closeTab:
  assumes "tabs_ok s"
  shows "tabs_ok (closeTab now i s)"
proof -
  let ?new = "filter (\<lambda>t. tab_id t \<noteq> i) (tabs s)"
  show ?thesis
  proof (cases "?new = []")
    case True
    then show ?thesis by (simp add: tabs_ok_def closeTab_def Let_def)
  next
    case False
    then have l: "?new ! (length ?new - 1) \<in> set ?new"
      by (simp del: set_filter)
    show ?thesis
    proof (cases "activeTabId s = i")
      case True
      with False l show ?thesis
        by (simp add: tabs_ok_def closeTab_def Let_def del: set_filter)
    next
      case False
      with assms \<open>?new \<noteq> []\<close> show ?thesis
        by (auto simp add: tabs_ok_def closeTab_def Let_def)
    qed
  qed
qed

lemma tabs_ok_apply_op: "tabs_ok s \<Longrightarrow> enabled x s \<Longrightarrow> tabs_ok (apply_op x s)"
proof (cases x)
  case (AddTab now)
  then show ?thesis by (simp add: tabs_ok_addTab)
next
  case (CloseTab now i)
  assume "tabs_ok s"
  with CloseTab show ?thesis by (simp add: tabs_ok_closeTab)
next
  case (SwitchTab i)
  assume "tabs_ok s" "enabled x s"
  with SwitchTab show ?thesis by (simp add: tabs_ok_def switchTab_def)
qed

lemma tabs_ok_run: "tabs_ok s \<Longrightarrow> valid_run xs s \<Longrightarrow> tabs_ok (run xs s)"
  by (induction xs arbitrary: s) (simp_all add: tabs_ok_apply_op)


lemma ids_sorted_addTab:
  assumes "ids_sorted strict b s" and "ord_rel strict b now"
  shows "ids_sorted strict now (addTab now s)"
proof -
  have le: "b \<le> now" using assms(2) by (simp add: ord_rel_def split: if_splits)
  have "\<forall>t \<in> set (tabs s). ord_rel strict (id_value (tab_id t)) now"
    using assms by (auto simp: ids_sorted_def ord_rel_def split: if_splits)
  moreover have "\<forall>t \<in> set (tabs s). id_value (tab_id t) \<le> now"
    using assms(1) le by (auto simp: ids_sorted_def)
  ultimately show ?thesis
    using assms(1)
    by (simp add: ids_sorted_def addTab_def Let_def sorted_wrt_append id_value_toString)
qed

lemma ids_sorted_closeTab:
  assumes "ids_sorted strict b s" and "ord_rel strict b now"
  shows "ids_sorted strict now (closeTab now i s)"
proof -
  have le: "b \<le> now" using assms(2) by (simp add: ord_rel_def split: if_splits)
  let ?new = "filter (\<lambda>t. tab_id t \<noteq> i) (tabs s)"
  have srt: "sorted_wrt (ord_rel strict) (map (id_value \<circ> tab_id) ?new)"
    using assms(1) by (simp add: ids_sorted_def sorted_wrt_map sorted_wrt_filter)
  have bnd: "\<forall>t \<in> set ?new. id_value (tab_id t) \<le> now"
    using assms(1) le by (auto simp: ids_sorted_def)
  show ?thesis
    using srt bnd
    by (simp add: ids_sorted_def closeTab_def Let_def id_value_toString del: set_filter)
qed

lemma ids_sorted_mono: "ids_sorted strict b s \<Longrightarrow> b \<le> c \<Longrightarrow> ids_sorted strict c s"
  by (auto simp: ids_sorted_def)

lemma ids_sorted_closeTab_keep:
  assumes "ids_sorted strict b s" and "filter (\<lambda>t. tab_id t \<noteq> i) (tabs s) \<noteq> []"
  shows "ids_sorted strict b (closeTab now i s)"
proof -
  let ?new = "filter (\<lambda>t. tab_id t \<noteq> i) (tabs s)"
  have srt: "sorted_wrt (ord_rel strict) (map (id_value \<circ> tab_id) ?new)"
    using assms(1) by (simp add: ids_sorted_def sorted_wrt_map sorted_wrt_filter)
  have bnd: "\<forall>t \<in> set ?new. id_value (tab_id t) \<le> b"
    using assms(1) by (auto simp: ids_sorted_def)
  show ?thesis
    using srt bnd assms(2)
    by (simp add: ids_sorted_def closeTab_def Let_def del: set_filter)
qed

lemma ids_sorted_run:
  "ids_sorted strict b s \<Longrightarrow> sorted_wrt (ord_rel strict) (b # readings xs s) \<Longrightarrow>
   \<exists>c. ids_sorted strict c (run xs s)"
proof (induction xs arbitrary: b s)
  case Nil
  then show ?case by auto
next
  case (Cons x xs)
  show ?case
  proof (cases x)
    case (AddTab now)
    with Cons.prems have "ids_sorted strict now (addTab now s)"
      by (simp add: ids_sorted_addTab)
    moreover from AddTab Cons.prems
    have "sorted_wrt (ord_rel strict) (now # readings xs (addTab now s))"
      by simp
    ultimately show ?thesis using Cons.IH AddTab by simp
  next
    case (CloseTab now i)
    show ?thesis
    proof (cases "filter (\<lambda>t. tab_id t \<noteq> i) (tabs s) = []")
      case True
      with CloseTab Cons.prems have "ids_sorted strict now (closeTab now i s)"
        by (simp add: ids_sorted_closeTab)
      moreover from True CloseTab Cons.prems
      have "sorted_wrt (ord_rel strict) (now # readings xs (closeTab now i s))"
        by simp
      ultimately show ?thesis using Cons.IH CloseTab by simp
    next
      case False
      with Cons.prems have "ids_sorted strict b (closeTab now i s)"
        by (simp add: ids_sorted_closeTab_keep)
      moreover from False CloseTab Cons.prems
      have "sorted_wrt (ord_rel strict) (b # readings xs (closeTab now i s))"
        by simp
      ultimately show ?thesis using Cons.IH CloseTab by simp
    qed
  next
    case (SwitchTab i)
    from Cons.prems(1) have "ids_sorted strict b (switchTab i s)"
      by (simp add: ids_sorted_def switchTab_def)
    moreover from SwitchTab Cons.prems
    have "sorted_wrt (ord_rel strict) (b # readings xs (switchTab i s))"
      by simp
    ultimately show ?thesis using Cons.IH SwitchTab by simp
  qed
qed

text \<open>While the clock does not run backwards, no id exceeds the last reading taken.\<close>

lemma ids_below_apply_op:
  assumes "ids_below b s" and "sorted_wrt (\<le>) (b # readings [x] s)"
  shows "ids_below (last (b # readings [x] s)) (apply_op x s)"
proof (cases x)
  case (AddTab now)
  with assms show ?thesis
    by (auto simp: ids_below_def addTab_def Let_def id_value_toString)
next
  case (CloseTab now i)
  with assms show ?thesis
    by (auto simp: ids_below_def closeTab_def Let_def id_value_toString)
next
  case (SwitchTab i)
  with assms show ?thesis by (simp add: ids_below_def switchTab_def)
qed

lemma readings_Cons: "readings (x # xs) s = readings [x] s @ readings xs (apply_op x s)"
  by (cases x) simp_all

lemma ids_used_bound:
  "ids_below b s \<Longrightarrow> sorted_wrt (\<le>) (b # readings xs s) \<Longrightarrow>
   \<forall>i \<in> ids_used xs s. id_value i \<le> last (b # readings xs s)"
proof (induction xs arbitrary: b s)
  case Nil
  then show ?case by (auto simp: ids_below_def)
next
  case (Cons x xs)
  let ?r = "readings [x] s" and ?s = "apply_op x s"
  let ?b = "last (b # ?r)"
  from Cons.prems(2) have srt: "sorted_wrt (\<le>) (b # ?r @ readings xs ?s)"
    by (simp only: readings_Cons [of x xs s])
  then have one: "sorted_wrt (\<le>) (b # ?r)"
    by (simp add: sorted_wrt_append)
  with Cons.prems(1) have below: "ids_below ?b ?s" by (rule ids_below_apply_op)
  have rest: "sorted_wrt (\<le>) (?b # readings xs ?s)"
    using srt by (cases ?r) (auto simp: sorted_wrt_append)
  have lasteq: "last (b # readings (x # xs) s) = last (?b # readings xs ?s)"
    by (simp add: readings_Cons [of x xs s])
  from Cons.IH [OF below rest]
  have ih: "\<forall>i \<in> ids_used xs ?s. id_value i \<le> last (b # readings (x # xs) s)"
    by (simp only: lasteq)
  have "b \<le> last (b # readings (x # xs) s)"
    using Cons.prems(2) by (cases "readings (x # xs) s") (auto simp: last_conv_nth)
  with Cons.prems(1) have "\<forall>t \<in> set (tabs s). id_value (tab_id t) \<le> last (b # readings (x # xs) s)"
    by (auto simp: ids_below_def)
  with ih show ?case by auto
qed

lemma ids_below_initialApp: "ids_below 1 (initialApp d)"
  by (simp add: ids_below_def initialApp_def id_value_def js_def dec_value_def)

lemma id_value_js_1: "id_value (js ''1'') = 1"
  by (simp add: id_value_def js_def dec_value_def)

lemma ids_sorted_initialApp: "ids_sorted strict 1 (initialApp d)"
  by (simp add: ids_sorted_def initialApp_def id_value_js_1)

lemma strict_ids_distinct:
  assumes "sorted_wrt (<) (map (id_value \<circ> tab_id) ts)"
  shows "distinct (map tab_id ts)"
proof -
  from assms have "distinct (map id_value (map tab_id ts))"
    by (simp add: strict_sorted_iff)
  then show ?thesis
    using distinct_map [of id_value "map tab_id ts"] by blast
qed

lemma ord_rel_True: "ord_rel True = (<)"
  by (intro ext) (simp add: ord_rel_def)

lemma ord_rel_False: "ord_rel False = (\<le>)"
  by (intro ext) (simp add: ord_rel_def)

section \<open>Lemmas about the tree of mounted nodes\<close>

lemma isLast_mountNode [simp]: "isLast (mountNode e c k v d l) = l"
  by (cases v) (simp_all add: Let_def)

lemma depth_mountNode [simp]: "depth (mountNode e c k v d l) = d"
  by (cases v) (simp_all add: Let_def)

lemma expanded_mountNode [simp]: "expanded (mountNode e c k v d l) = mountExpanded e c d"
  by (cases v) (simp_all add: Let_def)

lemma val_mountNode [simp]: "val (mountNode e c k v d l) = v"
  by (cases v) (simp_all add: Let_def)

lemma mount_siblings:
  "siblings_ok (mountNode e c k (v :: 'n json) d l)"
  "length (mountElems e c d n i (xs :: 'n json list)) = length xs \<and>
   (\<forall>j < length xs. isLast (mountElems e c d n i xs ! j) = (i + j = n - 1)) \<and>
   (\<forall>m \<in> set (mountElems e c d n i xs). siblings_ok m)"
  "length (mountMembers e c d n i (kvs :: (jstring \<times> 'n json) list)) = length kvs \<and>
   (\<forall>j < length kvs. isLast (mountMembers e c d n i kvs ! j) = (i + j = n - 1)) \<and>
   (\<forall>m \<in> set (mountMembers e c d n i kvs). siblings_ok m)"
proof (induction e c k v d l and e c d n i xs and e c d n i kvs
       rule: mountNode_mountElems_mountMembers.induct)
  case (1 e c k xs d l)
  then show ?case by (simp add: Let_def)
next
  case (2 e c k kvs d l)
  then show ?case by (simp add: Let_def)
next
  case (5 e c d n i x xs)
  then show ?case by (auto simp: nth_Cons split: nat.splits)
next
  case (7 e c d n i key x kvs)
  then show ?case by (auto simp: nth_Cons split: nat.splits)
qed simp_all

lemma mount_default:
  "default_expanded (mountNode 0 0 k (v :: 'n json) d l) \<and> depth (mountNode 0 0 k v d l) = d"
  "\<forall>m \<in> set (mountElems 0 0 d n i (xs :: 'n json list)). depth m = d \<and> default_expanded m"
  "\<forall>m \<in> set (mountMembers 0 0 d n i (kvs :: (jstring \<times> 'n json) list)). depth m = d \<and> default_expanded m"
proof (induction "0::nat" "0::nat" k v d l and "0::nat" "0::nat" d n i xs and "0::nat" "0::nat" d n i kvs
       rule: mountNode_mountElems_mountMembers.induct)
qed (simp_all add: Let_def mountExpanded_def collapseEffect_def expandEffect_def initialExpanded_def)

lemma render_nonempty: "render ns m \<noteq> []"
  by (cases m) simp

lemma count_renderKey [simp]: "count_list (renderKey k) Comma = 0"
  by (simp add: renderKey_def split: option.splits)

lemma count_renderValue [simp]: "count_list (renderValue ns v) Comma = 0"
  by (simp add: renderValue_def split: DataType.splits)

lemma count_getPreview [simp]: "count_list (getPreview v) Comma = 0"
  by (simp add: getPreview_def)

lemma last_row_commas:
  "count_list (last (render ns m)) Comma = (if isLast m then 0 else 1)"
  by (cases m) simp

lemma last_row_ends_with_comma: "\<not> isLast m \<Longrightarrow> last (last (render ns m)) = Comma"
  by (cases m) simp

lemma expanded_rows:
  assumes "expanded m" "isExpandable (val m)" "\<not> isEmpty (val m)"
  shows "count_list (hd (render ns m)) Comma = 0"
    and "last (render ns m) = Bracket (closingBracket (val m)) # (if isLast m then [] else [Comma])"
  using assms by (cases m; simp)+

lemma isLast_rerender [simp]: "isLast (rerender e c m) = isLast m"
  by (cases m) (simp add: Let_def)

lemma mountChildren_siblings:
  "(\<forall>j < length (mountChildren e c v d). isLast (mountChildren e c v d ! j) = (j = length (mountChildren e c v d) - 1)) \<and>
   (\<forall>m \<in> set (mountChildren e c v d). siblings_ok m)"
proof (cases v)
  case (JArray xs)
  then show ?thesis using mount_siblings(2) [of e c d "length xs" 0 xs] by simp
next
  case (JObject kvs)
  then show ?thesis using mount_siblings(3) [of e c d "length kvs" 0 kvs] by simp
qed simp_all

lemma siblings_rerender: "siblings_ok m \<Longrightarrow> siblings_ok (rerender e c m)"
proof (induction e c m rule: rerender.induct)
  case (1 e c k v d l ex de dc ks)
  then show ?case
    using mountChildren_siblings [of e c v "d + 1"]
    by (auto simp: Let_def)
qed

lemma siblings_handleToggle: "siblings_ok m \<Longrightarrow> siblings_ok (handleToggle m)"
proof (cases m)
  case (MNode k v d l ex de dc ks)
  then show ?thesis using mountChildren_siblings [of de dc v "d + 1"] by auto
qed

lemma isLast_handleToggle [simp]: "isLast (handleToggle m) = isLast m"
  by (cases m) simp

lemma isLast_toggleAt [simp]: "isLast (toggleAt p m) = isLast m"
  by (cases m; cases p) simp_all

lemma siblings_toggleAt: "siblings_ok m \<Longrightarrow> siblings_ok (toggleAt p m)"
proof (induction p m rule: toggleAt.induct)
  case (1 m)
  then show ?case by (simp add: siblings_handleToggle)
next
  case (2 i p k v d l ex de dc ks)
  show ?case
  proof (cases "i < length ks")
    case True
    with 2 have "siblings_ok (toggleAt p (ks ! i))" by simp
    with 2(2) True show ?thesis
      by (auto simp: nth_list_update dest: set_update_subset_insert [THEN subsetD])
  next
    case False
    with 2(2) show ?thesis by simp
  qed
qed

lemma node_inv_MNode [simp]:
  "node_inv e c (MNode k v d l ex de dc ks)
     = (de = e \<and> dc = c \<and> (ks \<noteq> [] \<longrightarrow> ex \<and> isExpandable v \<and> \<not> isEmpty v))"
  by (simp add: node_inv_def)

lemma nodeEffects_expand: "de < e \<Longrightarrow> nodeEffects e dc ex de dc = True"
  by (simp add: nodeEffects_def expandEffect_def)

lemma nodeEffects_collapse: "dc < c \<Longrightarrow> nodeEffects e c ex de dc = False"
  by (simp add: nodeEffects_def collapseEffect_def)

lemma kids_mountNode:
  "kids (mountNode e c k v d l)
     = (if mountExpanded e c d \<and> \<not> isEmpty v then mountChildren e c v (d + 1) else [])"
  by (cases v) (simp_all add: Let_def)

lemma deps_mountNode [simp]:
  "depExpand (mountNode e c k v d l) = e" "depCollapse (mountNode e c k v d l) = c"
  by (cases v; simp add: Let_def)+

lemma mountChildren_nonempty: "mountChildren e c v d \<noteq> [] \<Longrightarrow> isExpandable v \<and> \<not> isEmpty v"
  by (cases v) (auto simp: isExpandable_def isEmpty_def)

lemma all_nodes_iff: "all_nodes P m = (P m \<and> (\<forall>x \<in> set (kids m). all_nodes P x))"
  by (cases m) simp

lemma inv_mount:
  "all_nodes (node_inv e c) (mountNode e c k (v :: 'n json) d l)"
  "\<forall>m \<in> set (mountElems e c d n i (xs :: 'n json list)). all_nodes (node_inv e c) m"
  "\<forall>m \<in> set (mountMembers e c d n i (kvs :: (jstring \<times> 'n json) list)). all_nodes (node_inv e c) m"
proof (induction e c k v d l and e c d n i xs and e c d n i kvs
       rule: mountNode_mountElems_mountMembers.induct)
  case (1 e c k xs d l)
  then show ?case by (auto simp: Let_def isExpandable_def)
next
  case (2 e c k kvs d l)
  then show ?case by (auto simp: Let_def isExpandable_def)
qed simp_all

lemma inv_mountChildren: "\<forall>m \<in> set (mountChildren e c v d). all_nodes (node_inv e c) m"
  by (cases v) (simp_all add: inv_mount)

lemma inv_rerender: "all_nodes (node_inv de dc) m \<Longrightarrow> all_nodes (node_inv e c) (rerender e c m)"
proof (induction e c m rule: rerender.induct)
  case (1 e c k v d l ex de' dc' ks)
  then show ?case
    using inv_mountChildren [of e c v "d + 1"]
    by (auto simp: Let_def)
qed

lemma inv_handleToggle:
  "all_nodes (node_inv e c) m \<Longrightarrow> all_nodes (node_inv e c) (handleToggle m)"
proof (cases m)
  case (MNode k v d l ex de dc ks)
  assume "all_nodes (node_inv e c) m"
  with MNode have "de = e" "dc = c" by simp_all
  with MNode \<open>all_nodes (node_inv e c) m\<close> show ?thesis
    using inv_mountChildren [of e c v "d + 1"] by auto
qed

lemma inv_toggleAt: "all_nodes (node_inv e c) m \<Longrightarrow> all_nodes (node_inv e c) (toggleAt p m)"
proof (induction p m rule: toggleAt.induct)
  case (1 m)
  then show ?case by (simp add: inv_handleToggle)
next
  case (2 i p k v d l ex de dc ks)
  show ?case
  proof (cases "i < length ks")
    case True
    with 2 have "all_nodes (node_inv e c) (toggleAt p (ks ! i))" by simp
    with 2(2) True show ?thesis
      by (auto dest: set_update_subset_insert [THEN subsetD])
  next
    case False
    with 2(2) show ?thesis by simp
  qed
qed

lemma expanded_rerender_expand:
  "de < e \<Longrightarrow> expanded (rerender e dc (MNode k v d l ex de dc ks))"
  by (simp add: Let_def nodeEffects_expand)

lemma rerender_collapse:
  "dc < c \<Longrightarrow> rerender e c (MNode k v d l ex de dc ks) = MNode k v d l False e c []"
  by (simp add: Let_def nodeEffects_collapse)

lemma val_rerender [simp]: "val (rerender e c m) = val m"
  by (cases m) (simp add: Let_def)

lemma expand_reaches_mounted:
  "all_nodes (node_inv de dc) t \<Longrightarrow> de < e \<Longrightarrow> node_at p t = Some m \<Longrightarrow>
   node_at p (rerender e dc t) = Some (rerender e dc m) \<and> expanded (rerender e dc m)"
proof (induction p arbitrary: t)
  case Nil
  then have "t = m" by simp
  with Nil(1,2) show ?case
    by (cases m) (simp add: Let_def nodeEffects_expand)
next
  case (Cons i p)
  obtain k v d l ex de' dc' ks where t: "t = MNode k v d l ex de' dc' ks" by (cases t)
  from Cons.prems(3) t have i: "i < length ks" and at: "node_at p (ks ! i) = Some m"
    by (simp_all split: if_splits)
  from i have ne: "ks \<noteq> []" by auto
  from Cons.prems(1) t ne have inv: "de' = de" "dc' = dc" "ex" "isExpandable v" "\<not> isEmpty v"
    by simp_all
  from Cons.prems(1) t i have sub: "all_nodes (node_inv de dc) (ks ! i)" by simp
  have r: "rerender e dc t = MNode k v d l True e dc (map (rerender e dc) ks)"
    using t inv nodeEffects_expand [OF Cons.prems(2), of dc ex] by (simp add: Let_def)
  from Cons.IH [OF sub Cons.prems(2) at] i show ?case by (simp add: r)
qed

section \<open>Lemmas about JSON.parse and JSON.stringify\<close>

subsection \<open>Strings\<close>

lemma hex_digit_lt10: "d < 10 \<Longrightarrow> hex_value (hex_digit d) = Some d"
proof -
  assume d: "d < 10"
  have u: "unat (of_nat (48 + d) :: jschar) = 48 + d"
    using d by (simp only: unat_of_nat) simp
  have le1: "(0x30 :: jschar) \<le> of_nat (48 + d)"
    using u by (simp add: word_le_nat_alt)
  have le2: "(of_nat (48 + d) :: jschar) \<le> 0x39"
    using u d by (simp add: word_le_nat_alt)
  show ?thesis using d u le1 le2 by (simp add: hex_value_def hex_digit_def)
qed

lemma hex_digit_ge10: "10 \<le> d \<Longrightarrow> d < 16 \<Longrightarrow> hex_value (hex_digit d) = Some d"
proof -
  assume d: "10 \<le> d" "d < 16"
  have u: "unat (of_nat (87 + d) :: jschar) = 87 + d"
    using d by (simp only: unat_of_nat) simp
  have le1: "(0x61 :: jschar) \<le> of_nat (87 + d)"
    using u d by (simp add: word_le_nat_alt)
  have le2: "(of_nat (87 + d) :: jschar) \<le> 0x66"
    using u d by (simp add: word_le_nat_alt)
  have n1: "\<not> (of_nat (87 + d) :: jschar) \<le> 0x39"
    using u d by (simp add: word_le_nat_alt)
  have n2: "\<not> (of_nat (87 + d) :: jschar) \<le> 0x46"
    using u d by (simp add: word_le_nat_alt)
  show ?thesis using d u le1 le2 n1 n2 by (simp add: hex_value_def hex_digit_def)
qed

lemma hex_value_hex_digit: "d < 16 \<Longrightarrow> hex_value (hex_digit d) = Some d"
  using hex_digit_lt10 [of d] hex_digit_ge10 [of d] by (cases "d < 10") simp_all

lemma hex_sum:
  "4096 * (n div 4096) + 256 * (n div 256 mod 16) + 16 * (n div 16 mod 16) + n mod 16 = (n::nat)"
proof -
  have a: "n mod 256 = 16 * (n div 16 mod 16) + n mod 16"
    using mod_mult2_eq [of n 16 16] by simp
  have b: "n mod 4096 = 256 * (n div 256 mod 16) + n mod 256"
    using mod_mult2_eq [of n 256 16] by simp
  have c: "4096 * (n div 4096) + n mod 4096 = n"
    by (rule mult_div_mod_eq)
  from a b c show ?thesis by linarith
qed

lemma hex4_UnicodeEscape:
  "UnicodeEscape c = [0x5C, 0x75, a, b, x, y] \<Longrightarrow> hex4 a b x y = Some c"
proof -
  assume e: "UnicodeEscape c = [0x5C, 0x75, a, b, x, y]"
  have lt: "unat c < 65536" using unsigned_less [of c, where 'a = nat] by simp
  then have d1: "unat c div 4096 < 16" by simp
  have "hex_value a = Some (unat c div 4096)" "hex_value b = Some (unat c div 256 mod 16)"
       "hex_value x = Some (unat c div 16 mod 16)" "hex_value y = Some (unat c mod 16)"
    using e d1 by (auto simp add: UnicodeEscape_def hex_value_hex_digit)
  then show ?thesis by (simp add: hex4_def hex_sum)
qed

lemma parse_string_escape:
  "parse_string r = Some (s, t) \<Longrightarrow> parse_string (UnicodeEscape c @ r) = Some (c # s, t)"
proof -
  assume r: "parse_string r = Some (s, t)"
  obtain a b x y where e: "UnicodeEscape c = [0x5C, 0x75, a, b, x, y]"
    by (simp add: UnicodeEscape_def)
  from hex4_UnicodeEscape [OF e] r show ?thesis
    by (simp add: e)
qed

lemma surrogate_raw:
  "is_high_surrogate c \<or> is_low_surrogate c \<Longrightarrow> c \<noteq> 0x22 \<and> c \<noteq> 0x5C \<and> \<not> c < 0x20"
  by (auto simp: is_high_surrogate_def is_low_surrogate_def word_le_nat_alt word_less_nat_alt)

lemma parse_string_raw:
  "c \<noteq> 0x22 \<Longrightarrow> c \<noteq> 0x5C \<Longrightarrow> \<not> c < 0x20 \<Longrightarrow> parse_string r = Some (s, t) \<Longrightarrow>
   parse_string (c # r) = Some (c # s, t)"
  by simp

lemma short_escape_unescape:
  "short_escape c = Some e \<Longrightarrow> unescape e = Some c \<and> e \<noteq> 0x75"
  by (auto simp: short_escape_def unescape_def split: if_splits)

lemma short_escape_None:
  "short_escape c = None \<Longrightarrow> \<not> c < 0x20 \<Longrightarrow> c \<noteq> 0x22 \<and> c \<noteq> 0x5C"
  by (auto simp: short_escape_def split: if_splits)

lemma parse_string_short:
  "short_escape c = Some e \<Longrightarrow> parse_string r = Some (s, t) \<Longrightarrow>
   parse_string (0x5C # e # r) = Some (c # s, t)"
  using short_escape_unescape [of c e] by simp

declare parse_string.simps(2) [simp del]
declare quote_chars.simps(2) [simp del]

lemma parse_string_close: "parse_string (0x22 # rest) = Some ([], rest)"
  by (simp add: parse_string.simps(2))

lemma parse_string_quote_chars:
  "parse_string (quote_chars s @ 0x22 # rest) = Some (s, rest)"
proof (induction s rule: quote_chars.induct)
  case 1
  then show ?case by (simp add: parse_string_close)
next
  case (2 c r)
  show ?case
  proof (cases "short_escape c")
    case (Some e)
    with 2 have ih: "parse_string (quote_chars r @ 0x22 # rest) = Some (r, rest)" by simp
    from parse_string_short [OF Some ih] Some show ?thesis
      by (simp add: quote_chars.simps(2))
  next
    case None
    show ?thesis
    proof (cases "c < 0x20")
      case True
      with 2 None have ih: "parse_string (quote_chars r @ 0x22 # rest) = Some (r, rest)" by simp
      from parse_string_escape [OF ih, of c] None True show ?thesis
        by (simp add: quote_chars.simps(2))
    next
      case False
      note nctl = short_escape_None [OF None False]
      show ?thesis
      proof (cases "is_high_surrogate c")
        case hi: True
        show ?thesis
        proof (cases r)
          case Nil
          from parse_string_escape [OF parse_string_close, of c rest] None False hi Nil
          show ?thesis by (simp add: quote_chars.simps(2))
        next
          case (Cons c2 r2)
          show ?thesis
          proof (cases "is_low_surrogate c2")
            case True
            with 2 None False hi Cons
            have ih: "parse_string (quote_chars r2 @ 0x22 # rest) = Some (r2, rest)" by simp
            have p2: "parse_string (c2 # quote_chars r2 @ 0x22 # rest) = Some (c2 # r2, rest)"
              using surrogate_raw [of c2] True ih
                parse_string_raw [of c2 "quote_chars r2 @ 0x22 # rest" r2 rest]
              by blast
            have "parse_string (c # c2 # quote_chars r2 @ 0x22 # rest) = Some (c # c2 # r2, rest)"
              using nctl False p2
                parse_string_raw [of c "c2 # quote_chars r2 @ 0x22 # rest" "c2 # r2" rest]
              by blast
            with None False hi Cons True show ?thesis by (simp add: quote_chars.simps(2))
          next
            case lo: False
            with 2 None False hi Cons
            have ih: "parse_string (quote_chars r @ 0x22 # rest) = Some (r, rest)" by simp
            from parse_string_escape [OF ih, of c] None False hi Cons lo show ?thesis
              by (simp add: quote_chars.simps(2))
          qed
        qed
      next
        case nhi: False
        show ?thesis
        proof (cases "is_low_surrogate c")
          case True
          with 2 None False nhi
          have ih: "parse_string (quote_chars r @ 0x22 # rest) = Some (r, rest)" by simp
          from parse_string_escape [OF ih, of c] None False nhi True show ?thesis
            by (simp add: quote_chars.simps(2))
        next
          case nlo: False
          with 2 None False nhi
          have ih: "parse_string (quote_chars r @ 0x22 # rest) = Some (r, rest)" by simp
          from parse_string_raw [OF _ _ False ih] nctl None False nhi nlo show ?thesis
            by (simp add: quote_chars.simps(2))
        qed
      qed
    qed
  qed
qed

subsection \<open>Whitespace\<close>

lemma skip_ws_ws: "list_all is_ws w \<Longrightarrow> skip_ws (w @ s) = skip_ws s"
  by (induction w) (simp_all add: skip_ws_def)

lemma skip_ws_Cons: "\<not> is_ws c \<Longrightarrow> skip_ws (c # s) = c # s"
  by (simp add: skip_ws_def)

lemma skip_ws_Nil [simp]: "skip_ws [] = []"
  by (simp add: skip_ws_def)

subsection \<open>Numbers\<close>

lemma digit_numchar: "is_digit c \<Longrightarrow> is_numchar c"
  by (simp add: is_numchar_def)

lemma numchars_takeWhile_digit: "list_all is_numchar (takeWhile is_digit r)"
proof -
  have "\<forall>x \<in> set (takeWhile is_digit r). is_digit x"
    by (auto dest: set_takeWhileD)
  then show ?thesis by (auto simp: list_all_iff digit_numchar)
qed

lemma numchars_via_dropWhile:
  "list_all is_numchar (dropWhile is_digit r) \<Longrightarrow> list_all is_numchar r"
proof -
  assume a: "list_all is_numchar (dropWhile is_digit r)"
  have "list_all is_numchar (takeWhile is_digit r @ dropWhile is_digit r)"
    using a numchars_takeWhile_digit [of r] by (simp only: list_all_append)
  then show ?thesis by simp
qed

lemma is_exp_numchars: "is_exp r \<Longrightarrow> list_all is_numchar r"
proof (cases r)
  case Nil
  then show ?thesis by simp
next
  case (Cons e r')
  assume a: "is_exp r"
  with Cons have e: "is_numchar e" by (auto simp: is_exp_def is_numchar_def)
  have "list_all is_numchar r'"
  proof (cases r')
    case Nil
    then show ?thesis by simp
  next
    case (Cons s x)
    with a \<open>r = e # r'\<close> show ?thesis
      by (auto simp: is_exp_def Let_def list_all_iff is_numchar_def split: if_splits)
  qed
  with e Cons show ?thesis by simp
qed

lemma is_frac_exp_numchars: "is_frac_exp r \<Longrightarrow> list_all is_numchar r"
proof (cases r)
  case Nil
  then show ?thesis by simp
next
  case (Cons c r')
  assume a: "is_frac_exp r"
  show ?thesis
  proof (cases "c = 0x2E")
    case True
    with a Cons have "is_exp (dropWhile is_digit r')" by (simp add: is_frac_exp_def)
    then have "list_all is_numchar r'"
      using is_exp_numchars [of "dropWhile is_digit r'"] numchars_via_dropWhile [of r']
      by blast
    with True Cons show ?thesis by (simp add: is_numchar_def)
  next
    case False
    with a Cons show ?thesis using is_exp_numchars [of r] by (simp add: is_frac_exp_def)
  qed
qed

lemma is_unsigned_numchars: "is_unsigned t \<Longrightarrow> list_all is_numchar t"
proof (cases t)
  case Nil
  then show ?thesis by simp
next
  case (Cons c r)
  assume a: "is_unsigned t"
  show ?thesis
  proof (cases "c = 0x30")
    case True
    with a Cons have "list_all is_numchar r"
      by (simp add: is_unsigned_def is_frac_exp_numchars)
    with True Cons show ?thesis by (simp add: is_numchar_def is_digit_def)
  next
    case False
    with a Cons have "is_digit c" "is_frac_exp (dropWhile is_digit r)"
      by (simp_all add: is_unsigned_def)
    then have "is_numchar c" "list_all is_numchar r"
      using digit_numchar [of c] is_frac_exp_numchars [of "dropWhile is_digit r"]
        numchars_via_dropWhile [of r]
      by blast+
    with Cons show ?thesis by simp
  qed
qed

lemma is_unsigned_hd: "is_unsigned t \<Longrightarrow> t \<noteq> [] \<and> is_digit (hd t)"
  by (cases t) (auto simp: is_unsigned_def is_digit_def split: if_splits)

lemma is_json_number_numchars: "is_json_number t \<Longrightarrow> list_all is_numchar t"
proof (cases t)
  case Nil
  then show ?thesis by simp
next
  case (Cons c r)
  assume a: "is_json_number t"
  show ?thesis
  proof (cases "c = 0x2D")
    case True
    with a Cons have "list_all is_numchar r"
      by (simp add: is_json_number_def is_unsigned_numchars)
    with True Cons show ?thesis by (simp add: is_numchar_def)
  next
    case False
    with a Cons show ?thesis using is_unsigned_numchars [of t] by (simp add: is_json_number_def)
  qed
qed

lemma is_json_number_hd:
  "is_json_number t \<Longrightarrow> t \<noteq> [] \<and> (hd t = 0x2D \<or> is_digit (hd t))"
  using is_unsigned_hd [of t]
  by (cases t) (auto simp: is_json_number_def split: if_splits)

lemma takeWhile_all_stop:
  "list_all P t \<Longrightarrow> rest = [] \<or> \<not> P (hd rest) \<Longrightarrow>
   takeWhile P (t @ rest) = t \<and> dropWhile P (t @ rest) = rest"
  by (cases rest) (auto simp: list_all_iff)

lemma lex_number_token:
  assumes "is_json_number t" and "rest = [] \<or> \<not> is_numchar (hd rest)"
  shows "lex_number (t @ rest) = Some (t, rest)"
  using takeWhile_all_stop [OF is_json_number_numchars [OF assms(1)] assms(2)] assms(1)
  by (simp add: lex_number_def)

subsection \<open>Objects\<close>

lemma put_index_append:
  "\<forall>(k', v') \<in> set obj. is_array_index k' \<and> dec_value k' < dec_value k \<Longrightarrow>
   put_index k v obj = obj @ [(k, v)]"
  by (induction obj) auto

lemma js_ordered_snoc_index:
  assumes "js_ordered (keys @ [k])" and "is_array_index k"
  shows "\<forall>k' \<in> set keys. is_array_index k' \<and> dec_value k' < dec_value k"
proof -
  have all: "\<forall>k' \<in> set keys. is_array_index k'"
  proof (rule ccontr)
    assume "\<not> (\<forall>k' \<in> set keys. is_array_index k')"
    then have "dropWhile is_array_index (keys @ [k]) = dropWhile is_array_index keys @ [k]"
      by (auto simp: dropWhile_append1)
    then have "k \<in> set (dropWhile is_array_index (keys @ [k]))"
      by (simp only: set_append) simp
    moreover from assms(1)
    have "\<forall>k' \<in> set (dropWhile is_array_index (keys @ [k])). \<not> is_array_index k'"
      unfolding js_ordered_def by blast
    ultimately show False using assms(2) by blast
  qed
  then have tk: "takeWhile is_array_index (keys @ [k]) = keys @ [k]"
    using assms(2) by (simp add: takeWhile_eq_all_conv [THEN iffD2])
  from assms(1) have "sorted_wrt (<) (map dec_value (takeWhile is_array_index (keys @ [k])))"
    unfolding js_ordered_def by blast
  then have "sorted_wrt (<) (map dec_value (keys @ [k]))"
    by (simp only: tk)
  then have "\<forall>k' \<in> set keys. dec_value k' < dec_value k"
    by (auto simp: sorted_wrt_append)
  with all show ?thesis by blast
qed

lemma js_ordered_prefix: "js_ordered (xs @ ys) \<Longrightarrow> js_ordered xs"
proof (cases "\<forall>k \<in> set xs. is_array_index k")
  case True
  assume a: "js_ordered (xs @ ys)"
  from True have t: "takeWhile is_array_index (xs @ ys) = xs @ takeWhile is_array_index ys"
    and t': "takeWhile is_array_index xs = xs"
    and d: "dropWhile is_array_index xs = []"
    by (simp_all add: takeWhile_append2)
  from a have "sorted_wrt (<) (map dec_value (takeWhile is_array_index (xs @ ys)))"
    and dist: "distinct (xs @ ys)"
    unfolding js_ordered_def by blast+
  then have "sorted_wrt (<) (map dec_value (xs @ takeWhile is_array_index ys))"
    by (simp only: t)
  then have "sorted_wrt (<) (map dec_value xs)"
    by (simp add: sorted_wrt_append)
  with dist show ?thesis unfolding js_ordered_def t' d by simp
next
  case False
  assume a: "js_ordered (xs @ ys)"
  from False have t: "takeWhile is_array_index (xs @ ys) = takeWhile is_array_index xs"
    and d: "dropWhile is_array_index (xs @ ys) = dropWhile is_array_index xs @ ys"
    by (auto simp: takeWhile_append1 dropWhile_append1)
  from a have "distinct (xs @ ys)"
    and "sorted_wrt (<) (map dec_value (takeWhile is_array_index (xs @ ys)))"
    and "\<forall>k \<in> set (dropWhile is_array_index (xs @ ys)). \<not> is_array_index k"
    unfolding js_ordered_def by blast+
  then have "distinct xs"
    and "sorted_wrt (<) (map dec_value (takeWhile is_array_index xs))"
    and "\<forall>k \<in> set (dropWhile is_array_index xs). \<not> is_array_index k"
    by (simp_all only: t d set_append distinct_append) blast+
  then show ?thesis unfolding js_ordered_def by blast
qed

lemma js_put_snoc:
  assumes "js_ordered (map fst obj @ [k])"
  shows "js_put k v obj = obj @ [(k, v)]"
proof -
  from assms have nk: "k \<notin> set (map fst obj)" by (auto simp: js_ordered_def)
  show ?thesis
  proof (cases "is_array_index k")
    case True
    from js_ordered_snoc_index [OF assms True]
    have "\<forall>(k', v') \<in> set obj. is_array_index k' \<and> dec_value k' < dec_value k"
      by auto
    from put_index_append [OF this] nk True show ?thesis by (simp add: js_put_def)
  next
    case False
    with nk show ?thesis by (simp add: js_put_def)
  qed
qed

lemma foldl_js_put:
  "js_ordered (map fst (acc @ kvs)) \<Longrightarrow>
   foldl (\<lambda>obj (k, v). js_put k v obj) acc kvs = acc @ kvs"
proof (induction kvs arbitrary: acc)
  case Nil
  then show ?case by simp
next
  case (Cons kv kvs)
  obtain k v where kv: "kv = (k, v)" by (cases kv)
  from Cons.prems kv have "js_ordered ((map fst acc @ [k]) @ map fst kvs)" by simp
  then have "js_ordered (map fst acc @ [k])" by (rule js_ordered_prefix)
  then have p: "js_put k v acc = acc @ [(k, v)]" by (rule js_put_snoc)
  from Cons.prems kv have "js_ordered (map fst ((acc @ [(k, v)]) @ kvs))" by simp
  from Cons.IH [OF this] p kv show ?case by simp
qed

lemma mk_object_ordered: "js_ordered (map fst kvs) \<Longrightarrow> mk_object kvs = kvs"
  using foldl_js_put [of "[]" kvs] by (simp add: mk_object_def)

subsection \<open>Parsing what was serialised\<close>

declare parse_value.simps [simp del] parse_elements.simps [simp del] parse_members.simps [simp del]

lemma ws_not_numchar: "is_ws c \<Longrightarrow> \<not> is_numchar c"
  by (auto simp: is_ws_def is_numchar_def is_digit_def)

lemma digit_facts:
  "is_digit c \<Longrightarrow> \<not> is_ws c \<and> c \<noteq> 0x7B \<and> c \<noteq> 0x5B \<and> c \<noteq> 0x22 \<and> c \<noteq> 0x6E \<and> c \<noteq> 0x74
     \<and> c \<noteq> 0x66 \<and> c \<noteq> 0x5D \<and> c \<noteq> 0x7D \<and> c \<noteq> 0x2C"
  by (auto simp: is_digit_def is_ws_def)

lemma number_hd:
  assumes "is_json_number t"
  obtains c r where "t = c # r" "\<not> is_ws c" "c \<noteq> 0x7B" "c \<noteq> 0x5B" "c \<noteq> 0x22"
    "c \<noteq> 0x6E" "c \<noteq> 0x74" "c \<noteq> 0x66" "c \<noteq> 0x5D" "c \<noteq> 0x7D" "c \<noteq> 0x2C"
proof -
  from is_json_number_hd [OF assms] obtain c r where t: "t = c # r" and c: "c = 0x2D \<or> is_digit c"
    by (cases t) auto
  from c have "\<not> is_ws c \<and> c \<noteq> 0x7B \<and> c \<noteq> 0x5B \<and> c \<noteq> 0x22 \<and> c \<noteq> 0x6E \<and> c \<noteq> 0x74
     \<and> c \<noteq> 0x66 \<and> c \<noteq> 0x5D \<and> c \<noteq> 0x7D \<and> c \<noteq> 0x2C"
    using digit_facts [of c] by (auto simp: is_ws_def)
  with t that show ?thesis by blast
qed

lemma pv_null: "parse_value E (Suc n) (js ''null'' @ rest) = Ok JNull rest"
  by (simp add: parse_value.simps js_def strip_prefix_def)

lemma pv_true: "parse_value E (Suc n) (js ''true'' @ rest) = Ok (JBool True) rest"
  by (simp add: parse_value.simps js_def strip_prefix_def)

lemma pv_false: "parse_value E (Suc n) (js ''false'' @ rest) = Ok (JBool False) rest"
  by (simp add: parse_value.simps js_def strip_prefix_def)

lemma pv_string: "parse_value E (Suc n) (QuoteJSONString s @ rest) = Ok (JString s) rest"
  by (simp add: parse_value.simps QuoteJSONString_def parse_string_quote_chars)

lemma pv_number:
  assumes "is_json_number t" and "delim rest"
  shows "parse_value E (Suc n) (t @ rest) = Ok (JNumber (ToNumber E t)) rest"
proof -
  from assms(1) obtain c r where t: "t = c # r" and c: "c \<noteq> 0x7B" "c \<noteq> 0x5B" "c \<noteq> 0x22"
    "c \<noteq> 0x6E" "c \<noteq> 0x74" "c \<noteq> 0x66"
    by (rule number_hd)
  from lex_number_token [OF assms(1)] assms(2)
  have "lex_number (c # r @ rest) = Some (t, rest)" by (simp add: delim_def t)
  with c show ?thesis by (simp add: parse_value.simps t)
qed

lemma pv_empty_array: "parse_value E (Suc n) (js ''[]'' @ rest) = Ok (JArray []) rest"
  by (simp add: parse_value.simps js_def skip_ws_def is_ws_def)

lemma pv_empty_object: "parse_value E (Suc n) (js ''{}'' @ rest) = Ok (JObject []) rest"
  by (simp add: parse_value.simps js_def skip_ws_def is_ws_def)

lemma pv_array:
  "skip_ws r = c # r' \<Longrightarrow> c \<noteq> 0x5D \<Longrightarrow> parse_elements E n (c # r') = Ok vs r'' \<Longrightarrow>
   parse_value E (Suc n) (0x5B # r) = Ok (JArray vs) r''"
  by (simp add: parse_value.simps)

lemma pv_object:
  "skip_ws r = c # r' \<Longrightarrow> c \<noteq> 0x7D \<Longrightarrow> parse_members E n (c # r') = Ok kvs r'' \<Longrightarrow>
   parse_value E (Suc n) (0x7B # r) = Ok (JObject (mk_object kvs)) r''"
  by (simp add: parse_value.simps)

lemma pe_last:
  "parse_value E n s = Ok v r \<Longrightarrow> skip_ws r = 0x5D # r' \<Longrightarrow>
   parse_elements E (Suc n) s = Ok [v] r'"
  by (simp add: parse_elements.simps)

lemma pe_more:
  "parse_value E n s = Ok v r \<Longrightarrow> skip_ws r = 0x2C # r' \<Longrightarrow>
   parse_elements E n (skip_ws r') = Ok vs r'' \<Longrightarrow>
   parse_elements E (Suc n) s = Ok (v # vs) r''"
  by (simp add: parse_elements.simps)

lemma pm_last:
  "parse_string s = Some (key, r) \<Longrightarrow> skip_ws r = 0x3A # r' \<Longrightarrow>
   parse_value E n (skip_ws r') = Ok v r'' \<Longrightarrow> skip_ws r'' = 0x7D # r3 \<Longrightarrow>
   parse_members E (Suc n) (0x22 # s) = Ok [(key, v)] r3"
  by (simp add: parse_members.simps)

lemma pm_more:
  "parse_string s = Some (key, r) \<Longrightarrow> skip_ws r = 0x3A # r' \<Longrightarrow>
   parse_value E n (skip_ws r') = Ok v r'' \<Longrightarrow> skip_ws r'' = 0x2C # r3 \<Longrightarrow>
   parse_members E n (skip_ws r3) = Ok kvs r4 \<Longrightarrow>
   parse_members E (Suc n) (0x22 # s) = Ok ((key, v) # kvs) r4"
  by (simp add: parse_members.simps)

lemma starts_value_skip: "starts_value s \<Longrightarrow> list_all is_ws w \<Longrightarrow> skip_ws (w @ s @ t) = s @ t"
  by (cases s) (simp_all add: starts_value_def skip_ws_ws skip_ws_Cons)

lemma starts_value_append: "starts_value s \<Longrightarrow> starts_value (s @ t)"
  by (cases s) (simp_all add: starts_value_def)

lemma starts_value_length: "starts_value s \<Longrightarrow> 0 < length s"
  by (cases s) (simp_all add: starts_value_def)

lemma ser_starts:
  "numbers_survive E v \<Longrightarrow> starts_value (ser E gap ind v)"
proof (cases v)
  case (JNumber x)
  assume "numbers_survive E v"
  with JNumber have fin: "isFinite E x" and "is_json_number (NumberToString E x)"
    by (simp_all add: survives_def)
  then obtain c r where "NumberToString E x = c # r" "\<not> is_ws c" "c \<noteq> 0x5D" "c \<noteq> 0x7D" "c \<noteq> 0x2C"
    using number_hd by blast
  with JNumber fin show ?thesis by (simp add: starts_value_def)
qed (simp_all add: starts_value_def js_def is_ws_def QuoteJSONString_def)

lemma ser_elems_starts:
  "\<forall>x \<in> set xs. numbers_survive E x \<Longrightarrow> xs \<noteq> [] \<Longrightarrow>
   starts_value (ser_elems E gap ind xs)"
  by (cases xs) (simp_all add: ser_starts starts_value_append)

lemma ser_members_starts:
  "kvs \<noteq> [] \<Longrightarrow> \<exists>r. ser_members E gap ind kvs = 0x22 # r"
  by (cases kvs) (auto simp: QuoteJSONString_def)

lemma delim_ws: "list_all is_ws w \<Longrightarrow> \<not> is_numchar c \<Longrightarrow> delim (w @ c # rest)"
  by (cases w) (simp_all add: delim_def ws_not_numchar)

lemma not_numchar_punct: "\<not> is_numchar 0x5D" "\<not> is_numchar 0x7D" "\<not> is_numchar 0x2C"
  by (simp_all add: is_numchar_def is_digit_def)

lemma punct_not_ws: "\<not> is_ws 0x2C" "\<not> is_ws 0x3A" "\<not> is_ws 0x5D" "\<not> is_ws 0x7D" "is_ws 0x0A" "is_ws 0x20"
  by (simp_all add: is_ws_def)

lemma skip_to: "list_all is_ws w \<Longrightarrow> \<not> is_ws c \<Longrightarrow> skip_ws (w @ c # rest) = c # rest"
  by (simp add: skip_ws_ws skip_ws_Cons)

lemma roundtrip_aux:
  "numbers_survive E v \<Longrightarrow> list_all is_ws gap \<Longrightarrow> list_all is_ws ind \<Longrightarrow> js_value v \<Longrightarrow>
     (\<forall>n rest. 2 * length (ser E gap ind v) \<le> n \<longrightarrow> delim rest \<longrightarrow>
        parse_value E n (ser E gap ind v @ rest) = Ok v rest)"
  "\<forall>x \<in> set xs. numbers_survive E x \<Longrightarrow> list_all is_ws gap \<Longrightarrow> list_all is_ws ind \<Longrightarrow>
     (\<forall>x \<in> set xs. js_value x) \<Longrightarrow> xs \<noteq> [] \<Longrightarrow>
     (\<forall>n w rest. 2 * length (ser_elems E gap ind xs) + 1 \<le> n \<longrightarrow> list_all is_ws w \<longrightarrow>
        parse_elements E n (ser_elems E gap ind xs @ w @ 0x5D # rest) = Ok xs rest)"
  "\<forall>(k, x) \<in> set kvs. numbers_survive E x \<Longrightarrow> list_all is_ws gap \<Longrightarrow>
     list_all is_ws ind \<Longrightarrow>
     (\<forall>(k, x) \<in> set kvs. js_value x) \<Longrightarrow> kvs \<noteq> [] \<Longrightarrow>
     (\<forall>n w rest. 2 * length (ser_members E gap ind kvs) + 1 \<le> n \<longrightarrow> list_all is_ws w \<longrightarrow>
        parse_members E n (ser_members E gap ind kvs @ w @ 0x7D # rest) = Ok kvs rest)"
proof (induction E gap ind v and E gap ind xs and E gap ind kvs
       rule: ser_ser_elems_ser_members.induct)
  case (1 E gap ind)
  show ?case
  proof (intro allI impI)
    fix n rest assume "2 * length (ser E gap ind JNull) \<le> n"
    then obtain m where "n = Suc m" by (cases n) (simp_all add: js_def)
    then show "parse_value E n (ser E gap ind JNull @ rest) = Ok JNull rest"
      by (simp add: pv_null)
  qed
next
  case (2 E gap ind b)
  show ?case
  proof (intro allI impI)
    fix n rest assume "2 * length (ser E gap ind (JBool b)) \<le> n"
    then obtain m where "n = Suc m" by (cases n) (simp_all add: js_def split: if_splits)
    then show "parse_value E n (ser E gap ind (JBool b) @ rest) = Ok (JBool b) rest"
      by (simp add: pv_true pv_false)
  qed
next
  case (3 E gap ind x)
  then have num: "is_json_number (NumberToString E x)"
    and rd: "ToNumber E (NumberToString E x) = x"
    and fin: "isFinite E x"
    by (simp_all add: survives_def)
  show ?case
  proof (intro allI impI)
    fix n rest assume fuel: "2 * length (ser E gap ind (JNumber x)) \<le> n" and d: "delim rest"
    from is_json_number_hd [OF num] fuel fin obtain m where "n = Suc m"
      by (cases n) simp_all
    with pv_number [OF num d, of E m] rd fin
    show "parse_value E n (ser E gap ind (JNumber x) @ rest) = Ok (JNumber x) rest"
      by simp
  qed
next
  case (4 E gap ind s)
  show ?case
  proof (intro allI impI)
    fix n rest assume "2 * length (ser E gap ind (JString s)) \<le> n"
    then obtain m where "n = Suc m" by (cases n) (simp_all add: QuoteJSONString_def)
    then show "parse_value E n (ser E gap ind (JString s) @ rest) = Ok (JString s) rest"
      by (simp add: pv_string)
  qed
next
  case (5 E gap ind xs)
  note gapws = "5.prems"(2) and indws = "5.prems"(3)
  from "5.prems"(1) have codec: "\<forall>x \<in> set xs. numbers_survive E x" by simp
  from "5.prems"(4) have vals: "\<forall>x \<in> set xs. js_value x" by simp
  show ?case
  proof (intro allI impI)
    fix n rest assume fuel: "2 * length (ser E gap ind (JArray xs)) \<le> n" and d: "delim rest"
    show "parse_value E n (ser E gap ind (JArray xs) @ rest) = Ok (JArray xs) rest"
    proof (cases "xs = []")
      case True
      with fuel obtain m where "n = Suc m" by (cases n) (simp_all add: js_def)
      with True show ?thesis by (simp add: pv_empty_array)
    next
      case ne: False
      show ?thesis
      proof (cases "gap = []")
        case True
        let ?S = "ser_elems E gap ind xs"
        from fuel ne True obtain m where m: "n = Suc m" "2 * length ?S + 1 \<le> m"
          by (cases n) simp_all
        from "5.IH"(1) [OF ne True codec gapws indws vals ne, rule_format, of m "[]" rest] m(2)
        have pe: "parse_elements E m (?S @ [] @ 0x5D # rest) = Ok xs rest" by simp
        from ser_elems_starts [OF codec ne, of gap ind]
        obtain c r0 where S: "?S = c # r0" and c: "c \<noteq> 0x5D" "\<not> is_ws c"
          by (cases ?S) (simp_all add: starts_value_def)
        have sk: "skip_ws (?S @ 0x5D # rest) = c # (r0 @ 0x5D # rest)"
          using S c by (simp add: skip_ws_Cons)
        from pe S have pe': "parse_elements E m (c # (r0 @ 0x5D # rest)) = Ok xs rest" by simp
        from pv_array [OF sk c(1) pe'] ne True m(1) show ?thesis by simp
      next
        case False
        let ?S = "ser_elems E gap (ind @ gap) xs"
        from fuel ne False obtain m where m: "n = Suc m" "2 * length ?S + 1 \<le> m"
          by (cases n) simp_all
        have w: "list_all is_ws (0x0A # ind)" using indws by (simp add: punct_not_ws)
        have iw: "list_all is_ws (ind @ gap)" using indws gapws by simp
        from "5.IH"(2) [OF ne False codec gapws iw vals ne] m(2) w
        have pe: "parse_elements E m (?S @ (0x0A # ind) @ 0x5D # rest) = Ok xs rest" by blast
        from ser_elems_starts [OF codec ne, of gap "ind @ gap"]
        obtain c r0 where S: "?S = c # r0" and c: "c \<noteq> 0x5D" "\<not> is_ws c"
          by (cases ?S) (simp_all add: starts_value_def)
        have "list_all is_ws (0x0A # ind @ gap)" using iw by (simp add: punct_not_ws)
        from skip_to [OF this c(2), of "r0 @ (0x0A # ind) @ 0x5D # rest"]
        have sk: "skip_ws (0x0A # (ind @ gap) @ ?S @ (0x0A # ind) @ 0x5D # rest)
                    = c # (r0 @ (0x0A # ind) @ 0x5D # rest)"
          using S by simp
        from pe S have pe': "parse_elements E m (c # (r0 @ (0x0A # ind) @ 0x5D # rest)) = Ok xs rest"
          by simp
        from pv_array [OF sk c(1) pe'] ne False m(1) show ?thesis by simp
      qed
    qed
  qed
next
  case (6 E gap ind kvs)
  note gapws = "6.prems"(2) and indws = "6.prems"(3)
  from "6.prems"(1) have codec: "\<forall>(k, x) \<in> set kvs. numbers_survive E x" by simp
  from "6.prems"(4) have vals: "\<forall>(k, x) \<in> set kvs. js_value x"
    and ord: "js_ordered (map fst kvs)" by simp_all
  show ?case
  proof (intro allI impI)
    fix n rest assume fuel: "2 * length (ser E gap ind (JObject kvs)) \<le> n" and d: "delim rest"
    show "parse_value E n (ser E gap ind (JObject kvs) @ rest) = Ok (JObject kvs) rest"
    proof (cases "kvs = []")
      case True
      with fuel obtain m where "n = Suc m" by (cases n) (simp_all add: js_def)
      with True show ?thesis by (simp add: pv_empty_object)
    next
      case ne: False
      show ?thesis
      proof (cases "gap = []")
        case True
        let ?S = "ser_members E gap ind kvs"
        from fuel ne True obtain m where m: "n = Suc m" "2 * length ?S + 1 \<le> m"
          by (cases n) simp_all
        from "6.IH"(1) [OF ne True codec gapws indws vals ne, rule_format, of m "[]" rest] m(2)
        have pm: "parse_members E m (?S @ [] @ 0x7D # rest) = Ok kvs rest" by simp
        from ser_members_starts [OF ne, where E = E and gap = gap and ind = ind]
        obtain r0 where S: "?S = 0x22 # r0" by blast
        have sk: "skip_ws (?S @ 0x7D # rest) = 0x22 # (r0 @ 0x7D # rest)"
          using S by (simp add: skip_ws_Cons is_ws_def)
        from pm S have pm': "parse_members E m (0x22 # (r0 @ 0x7D # rest)) = Ok kvs rest" by simp
        from pv_object [OF sk _ pm'] ne True m(1) mk_object_ordered [OF ord]
        show ?thesis by simp
      next
        case False
        let ?S = "ser_members E gap (ind @ gap) kvs"
        from fuel ne False obtain m where m: "n = Suc m" "2 * length ?S + 1 \<le> m"
          by (cases n) simp_all
        have w: "list_all is_ws (0x0A # ind)" using indws by (simp add: punct_not_ws)
        have iw: "list_all is_ws (ind @ gap)" using indws gapws by simp
        from "6.IH"(2) [OF ne False codec gapws iw vals ne] m(2) w
        have pm: "parse_members E m (?S @ (0x0A # ind) @ 0x7D # rest) = Ok kvs rest" by blast
        from ser_members_starts [OF ne, where E = E and gap = gap and ind = "ind @ gap"]
        obtain r0 where S: "?S = 0x22 # r0" by blast
        have "list_all is_ws (0x0A # ind @ gap)" using iw by (simp add: punct_not_ws)
        from skip_to [OF this, of "0x22" "r0 @ (0x0A # ind) @ 0x7D # rest"]
        have sk: "skip_ws (0x0A # (ind @ gap) @ ?S @ (0x0A # ind) @ 0x7D # rest)
                    = 0x22 # (r0 @ (0x0A # ind) @ 0x7D # rest)"
          using S by (simp add: is_ws_def)
        from pm S have pm': "parse_members E m (0x22 # (r0 @ (0x0A # ind) @ 0x7D # rest)) = Ok kvs rest"
          by simp
        from pv_object [OF sk _ pm'] ne False m(1) mk_object_ordered [OF ord]
        show ?thesis by simp
      qed
    qed
  qed
next
  case (7 E gap ind)
  then show ?case by simp
next
  case (8 E gap ind x xs)
  note gapws = "8.prems"(2) and indws = "8.prems"(3)
  from "8.prems"(1) have cx: "numbers_survive E x"
    and codec: "\<forall>y \<in> set xs. numbers_survive E y" by simp_all
  from "8.prems"(4) have vx: "js_value x" and vxs: "\<forall>y \<in> set xs. js_value y" by simp_all
  let ?S = "ser E gap ind x"
  have lenS: "0 < length ?S" using ser_starts [OF cx, of gap ind] by (rule starts_value_length)
  show ?case
  proof (intro allI impI)
    fix n w rest
    assume fuel: "2 * length (ser_elems E gap ind (x # xs)) + 1 \<le> n" and w: "list_all is_ws w"
    from fuel obtain m where m: "n = Suc m" "2 * length (ser_elems E gap ind (x # xs)) \<le> m"
      by (cases n) simp_all
    show "parse_elements E n (ser_elems E gap ind (x # xs) @ w @ 0x5D # rest) = Ok (x # xs) rest"
    proof (cases "xs = []")
      case True
      from m(2) True have f: "2 * length ?S \<le> m" by simp
      have d: "delim (w @ 0x5D # rest)" using w by (rule delim_ws) (rule not_numchar_punct)
      from "8.IH"(1) [OF cx gapws indws vx] f d
      have pv: "parse_value E m (?S @ w @ 0x5D # rest) = Ok x (w @ 0x5D # rest)" by blast
      from pe_last [OF pv skip_to [OF w punct_not_ws(3)]] True m(1) show ?thesis by simp
    next
      case ne: False
      let ?T = "ser_elems E gap ind xs"
      let ?sw = "if gap = [] then [] else 0x0A # ind"
      have sw: "list_all is_ws ?sw" using indws by (simp add: punct_not_ws)
      have eq: "ser_elems E gap ind (x # xs) @ w @ 0x5D # rest
                  = ?S @ 0x2C # ?sw @ ?T @ w @ 0x5D # rest"
        using ne by simp
      from m(2) ne have f: "2 * length ?S \<le> m" by simp
      from m(2) ne lenS have f2: "2 * length ?T + 1 \<le> m" by (simp split: if_splits)
      have d: "delim (0x2C # ?sw @ ?T @ w @ 0x5D # rest)"
        by (simp add: delim_def not_numchar_punct)
      from "8.IH"(1) [OF cx gapws indws vx] f d
      have pv: "parse_value E m (?S @ 0x2C # ?sw @ ?T @ w @ 0x5D # rest)
                  = Ok x (0x2C # ?sw @ ?T @ w @ 0x5D # rest)" by blast
      have sk1: "skip_ws (0x2C # ?sw @ ?T @ w @ 0x5D # rest) = 0x2C # (?sw @ ?T @ w @ 0x5D # rest)"
        by (rule skip_ws_Cons) (rule punct_not_ws)
      have sk2: "skip_ws (?sw @ ?T @ w @ 0x5D # rest) = ?T @ w @ 0x5D # rest"
        using starts_value_skip [OF ser_elems_starts [OF codec ne, of gap ind] sw] by simp
      from "8.IH"(2) [OF ne codec gapws indws vxs ne] f2 w
      have pe: "parse_elements E m (?T @ w @ 0x5D # rest) = Ok xs rest" by blast
      then have pe': "parse_elements E m (skip_ws (?sw @ ?T @ w @ 0x5D # rest)) = Ok xs rest"
        by (simp only: sk2)
      from pe_more [OF pv sk1 pe'] m(1) show ?thesis by (simp only: eq)
    qed
  qed
next
  case (9 E gap ind)
  then show ?case by simp
next
  case (10 E gap ind k x kvs)
  note gapws = "10.prems"(2) and indws = "10.prems"(3)
  from "10.prems"(1) have cx: "numbers_survive E x"
    and codec: "\<forall>(k, y) \<in> set kvs. numbers_survive E y" by simp_all
  from "10.prems"(4) have vx: "js_value x" and vkvs: "\<forall>(k, y) \<in> set kvs. js_value y" by simp_all
  let ?S = "ser E gap ind x"
  let ?cw = "if gap = [] then [] else [0x20 :: jschar]"
  have cw: "list_all is_ws ?cw" by (simp add: punct_not_ws)
  have lenS: "0 < length ?S" using ser_starts [OF cx, of gap ind] by (rule starts_value_length)
  have skv: "\<And>t. skip_ws (?cw @ ?S @ t) = ?S @ t"
    using starts_value_skip [OF ser_starts [OF cx, of gap ind] cw] by simp
  show ?case
  proof (intro allI impI)
    fix n w rest
    assume fuel: "2 * length (ser_members E gap ind ((k, x) # kvs)) + 1 \<le> n" and w: "list_all is_ws w"
    from fuel obtain m where m: "n = Suc m" "2 * length (ser_members E gap ind ((k, x) # kvs)) \<le> m"
      by (cases n) simp_all
    from m(2) have f: "2 * length ?S \<le> m" by (simp split: if_splits)
    show "parse_members E n (ser_members E gap ind ((k, x) # kvs) @ w @ 0x7D # rest)
            = Ok ((k, x) # kvs) rest"
    proof (cases "kvs = []")
      case True
      let ?R = "0x3A # ?cw @ ?S @ w @ 0x7D # rest"
      have eq: "ser_members E gap ind ((k, x) # kvs) @ w @ 0x7D # rest
                  = 0x22 # (quote_chars k @ 0x22 # ?R)"
        using True by (simp add: QuoteJSONString_def)
      have ps: "parse_string (quote_chars k @ 0x22 # ?R) = Some (k, ?R)"
        by (rule parse_string_quote_chars)
      have sk1: "skip_ws ?R = 0x3A # (?cw @ ?S @ w @ 0x7D # rest)"
        by (rule skip_ws_Cons) (rule punct_not_ws)
      have d: "delim (w @ 0x7D # rest)" using w by (rule delim_ws) (rule not_numchar_punct)
      from "10.IH"(1) [OF cx gapws indws vx] f d
      have "parse_value E m (?S @ w @ 0x7D # rest) = Ok x (w @ 0x7D # rest)" by blast
      then have pv: "parse_value E m (skip_ws (?cw @ ?S @ w @ 0x7D # rest)) = Ok x (w @ 0x7D # rest)"
        by (simp only: skv)
      from pm_last [OF ps sk1 pv skip_to [OF w punct_not_ws(4)]]
      have "parse_members E n (ser_members E gap ind ((k, x) # kvs) @ w @ 0x7D # rest)
              = Ok [(k, x)] rest"
        by (simp only: eq m(1))
      with True show ?thesis by simp
    next
      case ne: False
      let ?T = "ser_members E gap ind kvs"
      let ?sw = "if gap = [] then [] else 0x0A # ind"
      let ?R2 = "0x2C # ?sw @ ?T @ w @ 0x7D # rest"
      let ?R = "0x3A # ?cw @ ?S @ ?R2"
      have sw: "list_all is_ws ?sw" using indws by (simp add: punct_not_ws)
      have eq: "ser_members E gap ind ((k, x) # kvs) @ w @ 0x7D # rest
                  = 0x22 # (quote_chars k @ 0x22 # ?R)"
        using ne by (simp add: QuoteJSONString_def)
      from m(2) ne lenS have f2: "2 * length ?T + 1 \<le> m" by (simp split: if_splits)
      have ps: "parse_string (quote_chars k @ 0x22 # ?R) = Some (k, ?R)"
        by (rule parse_string_quote_chars)
      have sk1: "skip_ws ?R = 0x3A # (?cw @ ?S @ ?R2)"
        by (rule skip_ws_Cons) (rule punct_not_ws)
      have d: "delim ?R2" by (simp add: delim_def not_numchar_punct)
      from "10.IH"(1) [OF cx gapws indws vx] f d
      have "parse_value E m (?S @ ?R2) = Ok x ?R2" by blast
      then have pv: "parse_value E m (skip_ws (?cw @ ?S @ ?R2)) = Ok x ?R2"
        by (simp only: skv)
      have sk2: "skip_ws ?R2 = 0x2C # (?sw @ ?T @ w @ 0x7D # rest)"
        by (rule skip_ws_Cons) (rule punct_not_ws)
      from ser_members_starts [OF ne, where E = E and gap = gap and ind = ind] obtain r0 where T: "?T = 0x22 # r0" by blast
      then have "starts_value ?T" by (simp add: starts_value_def is_ws_def)
      from starts_value_skip [OF this sw]
      have sk3: "skip_ws (?sw @ ?T @ w @ 0x7D # rest) = ?T @ w @ 0x7D # rest" by simp
      from "10.IH"(2) [OF ne codec gapws indws vkvs ne] f2 w
      have "parse_members E m (?T @ w @ 0x7D # rest) = Ok kvs rest" by blast
      then have pm: "parse_members E m (skip_ws (?sw @ ?T @ w @ 0x7D # rest)) = Ok kvs rest"
        by (simp only: sk3)
      from pm_more [OF ps sk1 pv sk2 pm] m(1) show ?thesis
        by (simp only: eq)
    qed
  qed
qed

section \<open>Lemmas about parsing, the viewer states and copying\<close>

lemma trim_blank: "list_all isWhiteSpace s \<Longrightarrow> trim s = []"
proof -
  assume "list_all isWhiteSpace s"
  then have d: "dropWhile isWhiteSpace s = []"
    by (auto simp: list_all_iff dest: set_dropWhileD)
  show ?thesis unfolding trim_def d by simp
qed

lemma contentView_blank:
  "list_all isWhiteSpace txt \<Longrightarrow> contentView E e c old txt = EmptyState"
  by (simp add: parseEffect_def contentView_def JsonViewer_def trim_blank)

lemma JSON_parse_cases:
  "(\<exists>v. JSON_parse E input = Inr v) \<or> JSON_parse E input = Inl (Error (syntaxErrorMessage E input))"
  by (simp add: JSON_parse_def split: presult.splits)

subsection \<open>The integer platform\<close>

lemma is_digit_digit_char: "d < 10 \<Longrightarrow> is_digit (digit_char d)"
  using unat_digit_char [of d] by (simp add: is_digit_def word_le_nat_alt)

lemma nat_to_string_digits: "list_all is_digit (nat_to_string n)"
proof (induction n rule: nat_to_string.induct)
  case (1 n)
  show ?case
  proof (cases "n < 10")
    case True
    then show ?thesis by (simp add: nat_to_string.simps [of n] is_digit_digit_char)
  next
    case False
    with 1 show ?thesis by (simp add: nat_to_string.simps [of n] is_digit_digit_char)
  qed
qed

lemma digit_char_zero: "d < 10 \<Longrightarrow> digit_char d = 0x30 \<Longrightarrow> d = 0"
proof -
  assume "d < 10" "digit_char d = 0x30"
  then have "unat (digit_char d) = 48" by simp
  with unat_digit_char [OF \<open>d < 10\<close>] show ?thesis by simp
qed

lemma nat_to_string_hd_zero: "hd (nat_to_string n) = 0x30 \<Longrightarrow> nat_to_string n = [0x30]"
proof (induction n rule: nat_to_string.induct)
  case (1 n)
  show ?case
  proof (cases "n < 10")
    case True
    with 1(2) show ?thesis by (simp add: nat_to_string.simps [of n])
  next
    case False
    with 1(2) have "hd (nat_to_string (n div 10)) = 0x30"
      by (simp add: nat_to_string.simps [of n] nat_to_string_nonempty)
    with 1(1) False have "nat_to_string (n div 10) = [0x30]" by simp
    then have "dec_value (nat_to_string (n div 10)) = 0" by (simp add: dec_value_def)
    then have "n div 10 = 0" by (simp add: dec_value_nat_to_string)
    with False show ?thesis by simp
  qed
qed

lemma is_unsigned_nat_to_string: "is_unsigned (nat_to_string n)"
proof -
  obtain c r where cr: "nat_to_string n = c # r"
    using nat_to_string_nonempty [of n] by (cases "nat_to_string n") auto
  from nat_to_string_digits [of n] cr have c: "is_digit c" and r: "list_all is_digit r" by simp_all
  from r have dw: "dropWhile is_digit r = []" by (auto simp: list_all_iff dest: set_dropWhileD)
  show ?thesis
  proof (cases "c = 0x30")
    case True
    with nat_to_string_hd_zero [of n] cr have "r = []" by simp
    with True cr show ?thesis by (simp add: is_unsigned_def is_frac_exp_def)
  next
    case False
    with c cr show ?thesis unfolding is_unsigned_def dw by (simp add: is_frac_exp_def dw)
  qed
qed

lemma is_json_number_toString: "is_json_number (toString i)"
proof (cases "i < 0")
  case True
  then show ?thesis by (simp add: toString_def is_json_number_def is_unsigned_nat_to_string)
next
  case False
  obtain c r where cr: "nat_to_string (nat i) = c # r"
    using nat_to_string_nonempty [of "nat i"] by (cases "nat_to_string (nat i)") auto
  with hd_nat_to_string [of "nat i"] have "c \<noteq> 0x2D" by simp
  with False cr is_unsigned_nat_to_string [of "nat i"] show ?thesis
    by (simp add: toString_def is_json_number_def)
qed

lemma survives_intPlatform: "survives intPlatform n"
  by (simp add: survives_def intPlatform_def is_json_number_toString id_value_toString)

subsection \<open>The round trip\<close>

lemma ser_roundtrip:
  assumes "numbers_survive E v" and "js_value v" and "list_all is_ws gap"
  shows "JSON_parse E (ser E gap [] v) = Inr v"
proof -
  let ?text = "ser E gap [] v"
  have "delim []" by (simp add: delim_def)
  with roundtrip_aux(1) [OF assms(1) assms(3) _ assms(2), of "[]", rule_format,
      of "2 * length ?text + 1" "[]"]
  have "parse_value E (2 * length ?text + 1) (?text @ []) = Ok v []"
    by simp
  moreover have "skip_ws ?text = ?text"
    using starts_value_skip [OF ser_starts [OF assms(1), of gap "[]"], of "[]" "[]"] by simp
  ultimately show ?thesis by (simp add: JSON_parse_def)
qed

lemma JSON_roundtrip:
  assumes "numbers_survive E v" and "js_value v" and "nesting v \<le> stackLimit E"
  shows "JSON_stringify E v space = Inr (ser E (replicate (min 10 space) 0x20) [] v)"
    and "JSON_parse E (ser E (replicate (min 10 space) 0x20) [] v) = Inr v"
proof -
  show "JSON_stringify E v space = Inr (ser E (replicate (min 10 space) 0x20) [] v)"
    using assms(3) by (simp add: JSON_stringify_def)
  have "list_all is_ws (replicate (min 10 space) (0x20 :: jschar))"
    by (simp add: list_all_iff is_ws_def)
  with assms(1,2) show "JSON_parse E (ser E (replicate (min 10 space) 0x20) [] v) = Inr v"
    by (rule ser_roundtrip)
qed

lemma numchar_not_WhiteSpace: "is_numchar c \<Longrightarrow> \<not> isWhiteSpace c"
  by (auto simp: is_numchar_def is_digit_def isWhiteSpace_def word_le_nat_alt)

lemma parse_value_starts: "parse_value E n s = Ok v r \<Longrightarrow> s \<noteq> [] \<and> \<not> isWhiteSpace (hd s)"
proof (cases n)
  case 0
  assume "parse_value E n s = Ok v r"
  with 0 show ?thesis by (simp add: parse_value.simps)
next
  case (Suc m)
  assume a: "parse_value E n s = Ok v r"
  show ?thesis
  proof (cases s)
    case Nil
    with a Suc show ?thesis by (simp add: parse_value.simps)
  next
    case (Cons c t)
    show ?thesis
    proof (cases "c = 0x7B \<or> c = 0x5B \<or> c = 0x22 \<or> c = 0x6E \<or> c = 0x74 \<or> c = 0x66")
      case True
      then have "\<not> isWhiteSpace c" by (auto simp: isWhiteSpace_def)
      with Cons show ?thesis by simp
    next
      case False
      with a Suc Cons obtain tok r' where "lex_number (c # t) = Some (tok, r')"
        by (auto simp: parse_value.simps split: option.splits)
      then have "is_json_number (takeWhile is_numchar (c # t))"
        by (simp add: lex_number_def Let_def split: if_splits)
      then have "takeWhile is_numchar (c # t) \<noteq> []"
        using is_json_number_hd [of "takeWhile is_numchar (c # t)"] by blast
      then have "is_numchar c" by (simp split: if_splits)
      with Cons show ?thesis by (simp add: numchar_not_WhiteSpace)
    qed
  qed
qed

lemma trim_nonblank: "c \<in> set s \<Longrightarrow> \<not> isWhiteSpace c \<Longrightarrow> trim s \<noteq> []"
proof -
  assume c: "c \<in> set s" "\<not> isWhiteSpace c"
  have "c \<in> set (dropWhile isWhiteSpace s)"
  proof -
    have "s = takeWhile isWhiteSpace s @ dropWhile isWhiteSpace s" by simp
    then have "c \<in> set (takeWhile isWhiteSpace s) \<or> c \<in> set (dropWhile isWhiteSpace s)"
      using c(1) by (metis Un_iff set_append)
    with c(2) show ?thesis by (auto dest: set_takeWhileD)
  qed
  then have "c \<in> set (rev (dropWhile isWhiteSpace s))" by simp
  with c(2) have "dropWhile isWhiteSpace (rev (dropWhile isWhiteSpace s)) \<noteq> []"
    by (auto simp only: dropWhile_eq_Nil_conv)
  then show ?thesis unfolding trim_def by (simp only: rev_is_Nil_conv not_False_eq_True)
qed

lemma parsed_not_blank: "JSON_parse E txt = Inr v \<Longrightarrow> trim txt \<noteq> []"
proof -
  assume "JSON_parse E txt = Inr v"
  then obtain r where "parse_value E (2 * length txt + 1) (skip_ws txt) = Ok v r"
    by (auto simp: JSON_parse_def split: presult.splits if_splits)
  from parse_value_starts [OF this] obtain c t where ct: "skip_ws txt = c # t" "\<not> isWhiteSpace c"
    by (cases "skip_ws txt") auto
  then have "c \<in> set (dropWhile is_ws txt)" by (simp add: skip_ws_def)
  then have "c \<in> set txt" by (rule set_dropWhileD)
  then show ?thesis using ct(2) by (rule trim_nonblank)
qed

lemma JSON_parse_whole:
  "parse_value E (Suc (2 * length s)) (s @ []) = Ok v [] \<Longrightarrow> skip_ws s = s \<Longrightarrow>
   JSON_parse E s = Inr v"
  by (simp add: JSON_parse_def)

lemma parse_literals:
  "JSON_parse E (js ''null'') = Inr JNull"
  "JSON_parse E (js ''false'') = Inr (JBool False)"
  "JSON_parse E (js ''0'') = Inr (JNumber (ToNumber E (js ''0'')))"
  "JSON_parse E [0x22, 0x22] = Inr (JString [])"
proof -
  show "JSON_parse E (js ''null'') = Inr JNull"
    by (rule JSON_parse_whole [OF pv_null]) (simp add: js_def skip_ws_def is_ws_def)
  show "JSON_parse E (js ''false'') = Inr (JBool False)"
    by (rule JSON_parse_whole [OF pv_false]) (simp add: js_def skip_ws_def is_ws_def)
  have num: "is_json_number (js ''0'')"
    by (simp add: js_def is_json_number_def is_unsigned_def is_frac_exp_def)
  have "delim []" by (simp add: delim_def)
  from JSON_parse_whole [OF pv_number [OF num this]]
  show "JSON_parse E (js ''0'') = Inr (JNumber (ToNumber E (js ''0'')))"
    by (simp add: js_def skip_ws_def is_ws_def)
  from JSON_parse_whole [OF pv_string [of E _ "[]" "[]"]]
  show "JSON_parse E [0x22, 0x22] = Inr (JString [])"
    by (simp add: QuoteJSONString_def skip_ws_def is_ws_def)
qed

text \<open>An array of one number token.\<close>

lemma parse_number_in_array:
  assumes "is_json_number t"
  shows "JSON_parse E (0x5B # t @ [0x5D]) = Inr (JArray [JNumber (ToNumber E t)])"
proof -
  let ?n = "2 * length t + 2"
  from assms obtain c r where t: "t = c # r" and c: "\<not> is_ws c" "c \<noteq> 0x5D"
    using number_hd [of t] by blast
  have d: "delim [0x5D]" by (simp add: delim_def not_numchar_punct)
  have pv: "parse_value E (Suc ?n) (t @ [0x5D]) = Ok (JNumber (ToNumber E t)) [0x5D]"
    using assms d by (rule pv_number)
  have "skip_ws [0x5D] = 0x5D # []" by (simp add: skip_ws_def is_ws_def)
  with pv have pe: "parse_elements E (Suc (Suc ?n)) (t @ [0x5D]) = Ok [JNumber (ToNumber E t)] []"
    by (rule pe_last)
  have sk: "skip_ws (t @ [0x5D]) = c # (r @ [0x5D])"
    using t c(1) by (simp add: skip_ws_Cons)
  from pe t have "parse_elements E (Suc (Suc ?n)) (c # (r @ [0x5D])) = Ok [JNumber (ToNumber E t)] []"
    by simp
  with sk c(2) have "parse_value E (Suc (Suc (Suc ?n))) (0x5B # t @ [0x5D])
                       = Ok (JArray [JNumber (ToNumber E t)]) []"
    by (rule pv_array)
  then have "parse_value E (Suc (2 * length (0x5B # t @ [0x5D]))) ((0x5B # t @ [0x5D]) @ [])
               = Ok (JArray [JNumber (ToNumber E t)]) []"
    by simp
  then show ?thesis
    by (rule JSON_parse_whole) (simp add: skip_ws_Cons is_ws_def)
qed

lemma parse_malformed:
  "JSON_parse intPlatform (js ''{a:1}'') = Inl (Error (js ''Unexpected token''))"
  "JSON_parse intPlatform (js ''[1,2,'') = Inl (Error (js ''Unexpected token''))"
  "JSON_parse intPlatform [] = Inl (Error (js ''Unexpected token''))"
  "JSON_parse intPlatform (js ''   '') = Inl (Error (js ''Unexpected token''))"
  by code_simp+

lemma safeJsonParse_blank:
  "safeJsonParse E [] = \<lparr>parsed = None, error = Some (syntaxErrorMessage E [])\<rparr>"
  by (simp add: safeJsonParse_def JSON_parse_def parse_value.simps)

lemma safeJsonParse_Inr:
  "JSON_parse E input = Inr v \<Longrightarrow> safeJsonParse E input = \<lparr>parsed = Some v, error = None\<rparr>"
  by (simp add: safeJsonParse_def)

lemma safeJsonParse_Inl:
  "\<forall>v. JSON_parse E input \<noteq> Inr v \<Longrightarrow>
   safeJsonParse E input = \<lparr>parsed = None, error = Some (syntaxErrorMessage E input)\<rparr>"
  using JSON_parse_cases [of E input] by (auto simp: safeJsonParse_def)

lemma parse_12: "JSON_parse intPlatform (js ''[1,2]'') = Inr doc_12"
  unfolding doc_12_def by code_simp

lemma contentView_parsed:
  "JSON_parse E txt = Inr v \<Longrightarrow>
   contentView E e c old txt
     = LoadedState \<lparr>expandSignal = e, collapseSignal = c,
                    root = (case old of None \<Rightarrow> mountNode e c None v 0 True
                            | Some m \<Rightarrow> updateNode e c None v 0 True m)\<rparr>"
  using parsed_not_blank [of E "txt" v]
  by (simp add: contentView_def parseEffect_def safeJsonParse_def JsonViewer_def)

lemma updateNode_props [simp]:
  "val (updateNode e c k v d l m) = v"
  "keyName (updateNode e c k v d l m) = k"
  "depth (updateNode e c k v d l m) = d"
  "isLast (updateNode e c k v d l m) = l"
  by (cases m; simp add: Let_def)+

lemma keyName_mountNode [simp]: "keyName (mountNode e c k v d l) = k"
  by (cases v) (simp_all add: Let_def)

lemma render_scalar:
  "\<not> isExpandable (val m) \<Longrightarrow> keyName m = None \<Longrightarrow> isLast m \<Longrightarrow>
   render ns m = [renderValue ns (val m)]"
  by (cases m) (simp add: renderKey_def)

lemma render_container:
  "isExpandable (val m) \<Longrightarrow> Bracket (openingBracket (val m)) \<in> set (hd (render ns m))"
  by (cases m) simp

lemma contentView_root:
  assumes "JSON_parse E txt = Inr v"
  shows "\<exists>r. viewRoot (contentView E e c old txt) = Some r \<and> val r = v \<and>
             keyName r = None \<and> depth r = 0 \<and> isLast r"
  using contentView_parsed [OF assms, of e c old] by (cases old) simp_all

lemma contentView_rows:
  assumes "JSON_parse E txt = Inr v" and "\<not> isExpandable v"
  shows "treeRows ns (contentView E e c old txt) = Some [renderValue ns v]"
proof -
  from contentView_root [OF assms(1), of e c old] obtain r
    where r: "viewRoot (contentView E e c old txt) = Some r" "val r = v"
      "keyName r = None" "isLast r" by blast
  with assms(2) have "render ns r = [renderValue ns v]" using render_scalar [of r ns] by simp
  with r(1) show ?thesis by (simp add: treeRows_def)
qed


section \<open>Lemmas about the parser: fuel, and the values it builds\<close>

subsection \<open>The fuel of the parser is enough\<close>

lemma parse_string_shorter: "parse_string s = Some (str, r) \<Longrightarrow> length r < length s"
proof (induction s arbitrary: str r rule: parse_string.induct)
  case 1
  then show ?case by simp
next
  case (2 c t)
  show ?case
  proof (cases "c = 0x22")
    case True
    with 2(4) show ?thesis by (simp add: parse_string.simps(2))
  next
    case nq: False
    show ?thesis
    proof (cases "c = 0x5C")
      case True
      show ?thesis
      proof (cases t)
        case Nil
        with 2(4) nq True show ?thesis by (simp add: parse_string.simps(2))
      next
        case (Cons e t')
        show ?thesis
        proof (cases "e = 0x75")
          case u: True
          from 2(4) nq True Cons u obtain a b x y t'' h s' where
            t': "t' = a # b # x # y # t''" and h: "hex4 a b x y = Some h"
            and p: "parse_string t'' = Some (s', r)"
            by (auto simp: parse_string.simps(2) split: list.splits option.splits)
          have "length r < length t''"
            using "2.IH"(1) nq True Cons u t' h p by blast
          with Cons t' show ?thesis by simp
        next
          case nu: False
          from 2(4) nq True Cons nu obtain h s' where h: "unescape e = Some h"
            and p: "parse_string t' = Some (s', r)"
            by (auto simp: parse_string.simps(2) split: option.splits)
          have "length r < length t'"
            using "2.IH"(2) nq True Cons nu h p by blast
          with Cons show ?thesis by simp
        qed
      qed
    next
      case nb: False
      show ?thesis
      proof (cases "c < 0x20")
        case True
        with 2(4) nq nb show ?thesis by (simp add: parse_string.simps(2))
      next
        case False
        with 2(4) nq nb obtain s' where p: "parse_string t = Some (s', r)"
          by (auto simp: parse_string.simps(2))
        have "length r < length t"
          using "2.IH"(3) nq nb False p by blast
        then show ?thesis by simp
      qed
    qed
  qed
qed

lemma lex_number_shorter: "lex_number s = Some (t, r) \<Longrightarrow> length r < length s"
proof -
  assume "lex_number s = Some (t, r)"
  then have t: "is_json_number (takeWhile is_numchar s)" and r: "r = dropWhile is_numchar s"
    by (simp_all add: lex_number_def Let_def split: if_splits)
  from is_json_number_hd [OF t] have "0 < length (takeWhile is_numchar s)" by simp
  moreover have "length s = length (takeWhile is_numchar s) + length (dropWhile is_numchar s)"
    by (metis length_append takeWhile_dropWhile_id)
  ultimately show ?thesis using r by simp
qed

lemma skip_ws_length: "length (skip_ws s) \<le> length s"
  by (simp add: skip_ws_def length_dropWhile_le)

lemma skip_ws_Cons_length: "skip_ws s = c # r \<Longrightarrow> length r < length s"
  using skip_ws_length [of s] by simp

lemma strip_prefix_length: "strip_prefix p s = Some r \<Longrightarrow> length r \<le> length s"
  by (auto simp: strip_prefix_def split: if_splits)

lemma progress_simps [simp]:
  "progress Bad s" "\<not> progress OutOfFuel s" "progress (Ok v r) s = (length r < length s)"
  by (simp_all add: progress_def)

lemma progress_cases:
  assumes "progress res t" and "length t \<le> length s"
  obtains "res = Bad" | v r where "res = Ok v r" "length r < length s"
  using assms by (cases res) auto

lemma fuel_enough:
  "2 * length s < n \<Longrightarrow> progress (parse_value E n s) s"
  "2 * length s + 1 < n \<Longrightarrow> progress (parse_elements E n s) s"
  "2 * length s + 1 < n \<Longrightarrow> progress (parse_members E n s) s"
proof (induction E n s and E n s and E n s rule: parse_value_parse_elements_parse_members.induct)
  case (1 E s)
  then show ?case by simp
next
  case (2 E n)
  then show ?case by (simp add: parse_value.simps)
next
  case (3 E n c r)
  from "3.prems" have fuel: "2 * length r + 1 < n" by simp
  show ?case
  proof (cases "c = 0x7B")
    case True
    show ?thesis
    proof (cases "skip_ws r")
      case Nil
      with True show ?thesis by (simp add: parse_value.simps)
    next
      case (Cons c' r')
      then have len: "length r' < length r" by (rule skip_ws_Cons_length)
      show ?thesis
      proof (cases "c' = 0x7D")
        case True
        with \<open>c = 0x7B\<close> Cons len show ?thesis by (simp add: parse_value.simps)
      next
        case False
        from len fuel have "2 * length (c' # r') + 1 < n" by simp
        from "3.IH"(1) [OF True Cons False this] have "progress (parse_members E n (c' # r')) (c' # r')" .
        then show ?thesis
        proof (rule progress_cases [where s = r])
          show "length (c' # r') \<le> length r" using len by simp
        next
          assume "parse_members E n (c' # r') = Bad"
          with True Cons False show ?thesis by (simp add: parse_value.simps)
        next
          fix v r'' assume "parse_members E n (c' # r') = Ok v r''" "length r'' < length r"
          with True Cons False show ?thesis by (simp add: parse_value.simps)
        qed
      qed
    qed
  next
    case nobj: False
    show ?thesis
    proof (cases "c = 0x5B")
      case True
      show ?thesis
      proof (cases "skip_ws r")
        case Nil
        with nobj True show ?thesis by (simp add: parse_value.simps)
      next
        case (Cons c' r')
        then have len: "length r' < length r" by (rule skip_ws_Cons_length)
        show ?thesis
        proof (cases "c' = 0x5D")
          case True
          with nobj \<open>c = 0x5B\<close> Cons len show ?thesis by (simp add: parse_value.simps)
        next
          case False
          from len fuel have "2 * length (c' # r') + 1 < n" by simp
          from "3.IH"(2) [OF nobj True Cons False this]
          have "progress (parse_elements E n (c' # r')) (c' # r')" .
          then show ?thesis
          proof (rule progress_cases [where s = r])
            show "length (c' # r') \<le> length r" using len by simp
          next
            assume "parse_elements E n (c' # r') = Bad"
            with nobj True Cons False show ?thesis by (simp add: parse_value.simps)
          next
            fix v r'' assume "parse_elements E n (c' # r') = Ok v r''" "length r'' < length r"
            with nobj True Cons False show ?thesis by (simp add: parse_value.simps)
          qed
        qed
      qed
    next
      case narr: False
      show ?thesis
      proof (cases "c = 0x22")
        case True
        with nobj narr show ?thesis
          by (auto simp: parse_value.simps split: option.splits dest: parse_string_shorter)
      next
        case nstr: False
        show ?thesis
        proof (cases "c = 0x6E \<or> c = 0x74 \<or> c = 0x66")
          case True
          with nobj narr nstr show ?thesis
            by (auto simp: parse_value.simps split: option.splits dest!: strip_prefix_length)
        next
          case False
          with nobj narr nstr show ?thesis
            by (auto simp: parse_value.simps split: option.splits dest: lex_number_shorter)
        qed
      qed
    qed
  qed
next
  case (4 E s)
  then show ?case by simp
next
  case (5 E n s)
  from "5.prems" have "2 * length s < n" by simp
  from "5.IH"(1) [OF this] have pv: "progress (parse_value E n s) s" .
  show ?case
  proof (cases "parse_value E n s")
    case (Ok v r)
    with pv have lr: "length r < length s" by simp
    show ?thesis
    proof (cases "skip_ws r")
      case Nil
      with Ok show ?thesis by (simp add: parse_elements.simps)
    next
      case (Cons c r')
      then have lr': "length r' < length r" by (rule skip_ws_Cons_length)
      show ?thesis
      proof (cases "c = 0x5D")
        case True
        with Ok Cons lr lr' show ?thesis by (simp add: parse_elements.simps)
      next
        case nclose: False
        show ?thesis
        proof (cases "c = 0x2C")
          case True
          have "length (skip_ws r') \<le> length r'" by (rule skip_ws_length)
          with lr lr' "5.prems" have f: "2 * length (skip_ws r') + 1 < n" by simp
          from "5.IH"(2) [OF Ok Cons nclose True f]
          have "progress (parse_elements E n (skip_ws r')) (skip_ws r')" .
          then show ?thesis
          proof (rule progress_cases [where s = s])
            show "length (skip_ws r') \<le> length s"
              using \<open>length (skip_ws r') \<le> length r'\<close> lr lr' by simp
          next
            assume "parse_elements E n (skip_ws r') = Bad"
            with Ok Cons nclose True show ?thesis by (simp add: parse_elements.simps)
          next
            fix vs r'' assume "parse_elements E n (skip_ws r') = Ok vs r''" "length r'' < length s"
            with Ok Cons nclose True show ?thesis by (simp add: parse_elements.simps)
          qed
        next
          case False
          with Ok Cons nclose show ?thesis by (simp add: parse_elements.simps)
        qed
      qed
    qed
  next
    case Bad
    then show ?thesis by (simp add: parse_elements.simps)
  next
    case OutOfFuel
    with pv show ?thesis by simp
  qed
next
  case (6 E s)
  then show ?case by simp
next
  case (7 E n)
  then show ?case by (simp add: parse_members.simps)
next
  case (8 E n q s)
  show ?case
  proof (cases "q \<noteq> 0x22")
    case True
    then show ?thesis by (simp add: parse_members.simps)
  next
    case q: False
    show ?thesis
    proof (cases "parse_string s")
      case None
      with q show ?thesis by (simp add: parse_members.simps)
    next
      case (Some kr)
      obtain key r where kr: "kr = (key, r)" by (cases kr)
      with Some have ps: "parse_string s = Some (key, r)" by simp
      then have lr: "length r < length s" by (rule parse_string_shorter)
      show ?thesis
      proof (cases "skip_ws r")
        case Nil
        with q ps show ?thesis by (simp add: parse_members.simps)
      next
        case (Cons c r')
        then have lr': "length r' < length r" by (rule skip_ws_Cons_length)
        show ?thesis
        proof (cases "c \<noteq> 0x3A")
          case True
          with q ps Cons show ?thesis by (simp add: parse_members.simps)
        next
          case colon: False
          have l1: "length (skip_ws r') \<le> length r'" by (rule skip_ws_length)
          with lr lr' "8.prems" have f: "2 * length (skip_ws r') < n" by simp
          from "8.IH"(1) [OF q ps refl Cons colon f]
          have pv: "progress (parse_value E n (skip_ws r')) (skip_ws r')" .
          show ?thesis
          proof (cases "parse_value E n (skip_ws r')")
            case (Ok v r'')
            with pv have l2: "length r'' < length (skip_ws r')" by simp
            show ?thesis
            proof (cases "skip_ws r''")
              case Nil
              with q ps Cons colon Ok show ?thesis by (simp add: parse_members.simps)
            next
              case c3: (Cons c' r3)
              then have l3: "length r3 < length r''" by (rule skip_ws_Cons_length)
              show ?thesis
              proof (cases "c' = 0x7D")
                case True
                with q ps Cons colon Ok c3 lr lr' l1 l2 l3 show ?thesis
                  by (simp add: parse_members.simps)
              next
                case nclose: False
                show ?thesis
                proof (cases "c' = 0x2C")
                  case True
                  have l4: "length (skip_ws r3) \<le> length r3" by (rule skip_ws_length)
                  with lr lr' l1 l2 l3 "8.prems" have f2: "2 * length (skip_ws r3) + 1 < n" by simp
                  from "8.IH"(2) [OF q ps refl Cons colon Ok c3 nclose True f2]
                  have "progress (parse_members E n (skip_ws r3)) (skip_ws r3)" .
                  then show ?thesis
                  proof (rule progress_cases [where s = "q # s"])
                    show "length (skip_ws r3) \<le> length (q # s)"
                      using l4 lr lr' l1 l2 l3 by simp
                  next
                    assume "parse_members E n (skip_ws r3) = Bad"
                    with q ps Cons colon Ok c3 nclose True show ?thesis
                      by (simp add: parse_members.simps)
                  next
                    fix kvs r4
                    assume "parse_members E n (skip_ws r3) = Ok kvs r4" "length r4 < length (q # s)"
                    with q ps Cons colon Ok c3 nclose True show ?thesis
                      by (simp add: parse_members.simps)
                  qed
                next
                  case False
                  with q ps Cons colon Ok c3 nclose show ?thesis
                    by (simp add: parse_members.simps)
                qed
              qed
            qed
          next
            case Bad
            with q ps Cons colon show ?thesis by (simp add: parse_members.simps)
          next
            case OutOfFuel
            with pv show ?thesis by simp
          qed
        qed
      qed
    qed
  qed
qed

lemma JSON_parse_fuel: "parse_value E (2 * length s + 1) (skip_ws s) \<noteq> OutOfFuel"
proof -
  have "2 * length (skip_ws s) < 2 * length s + 1"
    using skip_ws_length [of s] by simp
  from fuel_enough(1) [OF this] show ?thesis by (auto simp: progress_def)
qed

subsection \<open>Array indices are canonical\<close>





subsection \<open>Property order is kept by every insertion\<close>


lemma js_ordered_Nil [simp]: "js_ordered []"
  by (simp add: js_ordered_def)












subsection \<open>What the parser returns is a value of the engine\<close>





subsection \<open>Every node of the tree holds a value of the engine\<close>







section \<open>Lemmas about the doubles\<close>

lemmas dbl_eval = literalToNumber_def unsignedToNumber_def fraction_digits_def after_fraction_def
  decimal_def is_json_number_def is_unsigned_def is_frac_exp_def is_exp_def
  is_digit_def js_def dec_value_def exponent_value_def to_double_def round_at_def pack_def
  signed_zero_def floor_log2_def floor_log2_from_def reaches_pow2_def
  round_even_def round_rem_def bit_length.simps normal.simps

lemmas str_eval = positiveToString_def ratioToString_def layout_def carry_def exponent_part_def
  shortest.simps near_digits_def low_digits_def other_def pick_digits_def
  dec_exponent_def dec_exponent_from_def reaches_pow10_def dec_length.simps
  decimal_def to_double_def round_at_def pack_def
  signed_zero_def floor_log2_def floor_log2_from_def reaches_pow2_def
  round_even_def round_rem_def bit_length.simps normal.simps
  nat_to_string.simps digit_char_def js_def







lemma literal_zero: "literalToNumber (js ''0'') = Dbl 0 0"
  by (simp add: dbl_eval)


text \<open>Negative zero and the infinities do not survive.\<close>

lemma not_survives:
  "\<not> survives jsPlatform NegZero"
  "\<not> survives jsPlatform Infinity"
  "\<not> survives jsPlatform NegInfinity"
  by (simp_all add: survives_def jsPlatform_def literal_zero)




lemma literal_2_5: "literalToNumber (js ''2.5'') = Dbl 5 (- 1)"
  by (simp add: dbl_eval)

lemma parse_2_5: "JSON_parse jsPlatform (js ''[2.5]'') = Inr (JArray [JNumber (Dbl 5 (- 1))])"
proof -
  have n: "is_json_number (js ''2.5'')"
    by (simp add: is_json_number_def is_unsigned_def is_frac_exp_def is_exp_def is_digit_def
          js_def)
  have "js ''[2.5]'' = 0x5B # js ''2.5'' @ [0x5D]" by (simp add: js_def)
  with parse_number_in_array [OF n, of jsPlatform] literal_2_5
  show ?thesis by (simp add: jsPlatform_def)
qed


lemma Number_toString_examples:
  "Number_toString (Dbl 0 0) = js ''0''"
  "Number_toString (Dbl 5 (- 1)) = js ''2.5''"
  by (simp_all add: str_eval)

lemma rows_2_5:
  "treeRows Number_toString (contentView jsPlatform 1 0 (Some tree_7) (js ''[2.5]''))
     = Some [[Toggle True, Bracket 0x5B], [Literal NUMBER (js ''2.5'')], [Bracket 0x5D]]"
  using contentView_parsed [OF parse_2_5, of 1 0 "Some tree_7"]
  by (simp add: treeRows_def tree_7_def Let_def nodeEffects_def expandEffect_def
        collapseEffect_def mountExpanded_def initialExpanded_def isExpandable_def isEmpty_def
        renderValue_def renderKey_def openingBracket_def closingBracket_def
        Number_toString_examples del: Number_toString.simps)

lemmas tab_eval = initialApp_def addTab_def closeTab_def switchTab_def Let_def
  toString_def nat_to_string.simps digit_char_def js_def tabs_ok_def

lemma valid_ops0: "valid_run ops0 (initialApp [])"
  by (simp add: ops0_def tab_eval)

lemma run_ops0:
  "tabs (run ops0 (initialApp []))
     = [\<lparr>tab_id = js ''1730000000900'', title = js ''Tab 1'', content = []\<rparr>]"
  by (simp add: ops0_def tab_eval)

lemma readings_ops0: "readings ops0 (initialApp []) = [1730000000000, 1730000000900]"
  by (simp add: ops0_def tab_eval)

lemma readings_ops2: "readings ops2 (initialApp []) = [1730000000000, 1730000000500]"
  by (simp add: ops2_def tab_eval)

lemma run_ops2:
  "map tab_id (tabs (run ops2 (initialApp [])))
     = [js ''1730000000000'', js ''1730000000500'']"
  by (simp add: ops2_def tab_eval)

section \<open>Claims about the tab list\<close>

text \<open>
  C8, as amended. After every tab operation (add, close, switch) at least one tab exists
  and the active tab id is the id of an existing tab. Closing the only open tab leaves
  exactly one tab, with empty content and the clock reading taken at the close as its id;
  that id is fresh, different from every id used before, when the clock never ran
  backwards and has advanced since the last tab was created. Closing the active tab
  while other tabs remain makes the last remaining tab active.
\<close>

theorem tabs_invariant:
  "(valid_run xs (initialApp d) \<longrightarrow> tabs_ok (run xs (initialApp d))) \<and>
   (tabs s = [t] \<longrightarrow>
      tabs (closeTab now (tab_id t) s)
        = [\<lparr>tab_id = toString now, title = js ''Tab 1'', content = []\<rparr>] \<and>
      activeTabId (closeTab now (tab_id t) s) = toString now) \<and>
   (tabs (run ys (initialApp d')) = [u] \<and>
    sorted_wrt (\<le>) (1 # readings ys (initialApp d')) \<and>
    last (1 # readings ys (initialApp d')) < now'' \<longrightarrow>
      map tab_id (tabs (closeTab now'' (tab_id u) (run ys (initialApp d')))) = [toString now''] \<and>
      toString now'' \<notin> ids_used ys (initialApp d')) \<and>
   (filter (\<lambda>t. tab_id t \<noteq> activeTabId s') (tabs s') \<noteq> [] \<longrightarrow>
      tabs (closeTab now' (activeTabId s') s')
        = filter (\<lambda>t. tab_id t \<noteq> activeTabId s') (tabs s') \<and>
      activeTabId (closeTab now' (activeTabId s') s')
        = tab_id (last (filter (\<lambda>t. tab_id t \<noteq> activeTabId s') (tabs s'))))"
proof (intro conjI impI)
  assume "valid_run xs (initialApp d)"
  moreover have "tabs_ok (initialApp d)" by (simp add: tabs_ok_def initialApp_def)
  ultimately show "tabs_ok (run xs (initialApp d))" by (simp add: tabs_ok_run)
next
  assume "tabs s = [t]"
  then show "tabs (closeTab now (tab_id t) s)
        = [\<lparr>tab_id = toString now, title = js ''Tab 1'', content = []\<rparr>]"
    by (simp add: closeTab_def Let_def)
next
  assume "tabs s = [t]"
  then show "activeTabId (closeTab now (tab_id t) s) = toString now"
    by (simp add: closeTab_def Let_def)
next
  assume "tabs (run ys (initialApp d')) = [u] \<and>
          sorted_wrt (\<le>) (1 # readings ys (initialApp d')) \<and>
          last (1 # readings ys (initialApp d')) < now''"
  then show "map tab_id (tabs (closeTab now'' (tab_id u) (run ys (initialApp d'))))
               = [toString now'']"
    by (simp add: closeTab_def Let_def)
next
  assume a: "tabs (run ys (initialApp d')) = [u] \<and>
             sorted_wrt (\<le>) (1 # readings ys (initialApp d')) \<and>
             last (1 # readings ys (initialApp d')) < now''"
  show "toString now'' \<notin> ids_used ys (initialApp d')"
  proof
    assume "toString now'' \<in> ids_used ys (initialApp d')"
    with ids_used_bound [OF ids_below_initialApp, of ys d'] a
    have "id_value (toString now'') \<le> last (1 # readings ys (initialApp d'))" by blast
    with a show False by (simp add: id_value_toString)
  qed
next
  assume "filter (\<lambda>t. tab_id t \<noteq> activeTabId s') (tabs s') \<noteq> []"
  then show "tabs (closeTab now' (activeTabId s') s')
        = filter (\<lambda>t. tab_id t \<noteq> activeTabId s') (tabs s')"
    by (simp add: closeTab_def Let_def)
next
  assume "filter (\<lambda>t. tab_id t \<noteq> activeTabId s') (tabs s') \<noteq> []"
  then show "activeTabId (closeTab now' (activeTabId s') s')
        = tab_id (last (filter (\<lambda>t. tab_id t \<noteq> activeTabId s') (tabs s')))"
    by (simp add: closeTab_def Let_def last_conv_nth)
qed

theorem tabs_invariant_witness:
  "valid_run ops0 (initialApp []) \<and> tabs_ok (run ops0 (initialApp [])) \<and>
   tabs (initialApp []) = [\<lparr>tab_id = js ''1'', title = js ''Tab 1'', content = []\<rparr>] \<and>
   tabs (closeTab 1730000000500 (js ''1'') (initialApp []))
     = [\<lparr>tab_id = js ''1730000000500'', title = js ''Tab 1'', content = []\<rparr>] \<and>
   activeTabId (closeTab 1730000000500 (js ''1'') (initialApp [])) = js ''1730000000500'' \<and>
   readings ops0 (initialApp []) = [1730000000000, 1730000000900] \<and>
   map tab_id (tabs (run ops0 (initialApp []))) = [js ''1730000000900''] \<and>
   map tab_id (tabs (closeTab 1730000001000 (js ''1730000000900'') (run ops0 (initialApp []))))
     = [js ''1730000001000''] \<and>
   js ''1730000001000'' \<notin> ids_used ops0 (initialApp []) \<and>
   filter (\<lambda>t. tab_id t \<noteq> activeTabId twoTabs) (tabs twoTabs) \<noteq> [] \<and>
   tabs (closeTab 1730000000500 (activeTabId twoTabs) twoTabs)
     = [\<lparr>tab_id = js ''1'', title = js ''Tab 1'', content = []\<rparr>] \<and>
   activeTabId (closeTab 1730000000500 (activeTabId twoTabs) twoTabs) = js ''1''"
  using tabs_invariant [of ops0 "[]" "initialApp []"
      "\<lparr>tab_id = js ''1'', title = js ''Tab 1'', content = []\<rparr>" 1730000000500
      ops0 "[]" "\<lparr>tab_id = js ''1730000000900'', title = js ''Tab 1'', content = []\<rparr>"
      1730000001000 twoTabs 1730000000500] valid_ops0 readings_ops0 run_ops0
  by (simp add: twoTabs_def tab_eval)

text \<open>
  C8 as stated fails: the tab that replaces the only tab takes the reading of the clock
  as its id, and when the only tab was itself created at that reading (two closes within
  one millisecond, or within one tick of a coarsened clock) the new id is the id of the
  tab just closed.
\<close>

theorem close_only_tab_same_id:
  "valid_run ops1 (initialApp []) \<and>
   map tab_id (tabs (run (butlast ops1) (initialApp []))) = [js ''1730000000000''] \<and>
   last ops1 = CloseTab 1730000000000 (js ''1730000000000'') \<and>
   map tab_id (tabs (run ops1 (initialApp []))) = [js ''1730000000000'']"
  by (simp add: ops1_def tab_eval)

text \<open>
  C9, as amended. Tab ids are the decimal clock readings taken at creation, and the
  initial tab has the id 1. When the readings taken by successive tab creations (every
  add, and every close of the only tab) never decrease and are at least 1, the ids in
  the tab list never decrease, in creation order. When these readings strictly increase
  and exceed 1, the ids are also pairwise distinct, and strictly increasing. Two tabs
  added at the same reading share an id.
\<close>

theorem tab_ids_ordered:
  "(sorted_wrt (\<le>) (1 # readings xs (initialApp d)) \<longrightarrow>
      sorted_wrt (\<le>) (map (id_value \<circ> tab_id) (tabs (run xs (initialApp d))))) \<and>
   (sorted_wrt (<) (1 # readings xs (initialApp d)) \<longrightarrow>
      distinct (map tab_id (tabs (run xs (initialApp d)))) \<and>
      sorted_wrt (<) (map (id_value \<circ> tab_id) (tabs (run xs (initialApp d))))) \<and>
   map tab_id (tabs (addTab now (addTab now s)))
     = map tab_id (tabs s) @ [toString now, toString now]"
proof (intro conjI impI)
  assume "sorted_wrt (\<le>) (1 # readings xs (initialApp d))"
  then have "\<exists>c. ids_sorted False c (run xs (initialApp d))"
    using ids_sorted_run [of False 1 "initialApp d" xs] ids_sorted_initialApp [of False d]
    by (simp only: ord_rel_False)
  then show "sorted_wrt (\<le>) (map (id_value \<circ> tab_id) (tabs (run xs (initialApp d))))"
    by (auto simp: ids_sorted_def ord_rel_False)
next
  assume "sorted_wrt (<) (1 # readings xs (initialApp d))"
  then have "\<exists>c. ids_sorted True c (run xs (initialApp d))"
    using ids_sorted_run [of True 1 "initialApp d" xs] ids_sorted_initialApp [of True d]
    by (simp only: ord_rel_True)
  then have s: "sorted_wrt (<) (map (id_value \<circ> tab_id) (tabs (run xs (initialApp d))))"
    by (auto simp: ids_sorted_def ord_rel_True)
  then show "distinct (map tab_id (tabs (run xs (initialApp d))))"
    by (rule strict_ids_distinct)
  from s show "sorted_wrt (<) (map (id_value \<circ> tab_id) (tabs (run xs (initialApp d))))" .
next
  show "map tab_id (tabs (addTab now (addTab now s)))
          = map tab_id (tabs s) @ [toString now, toString now]"
    by (simp add: addTab_def Let_def)
qed

theorem tab_ids_ordered_witness:
  "readings ops2 (initialApp []) = [1730000000000, 1730000000500] \<and>
   sorted_wrt (\<le>) (1 # readings ops2 (initialApp [])) \<and>
   sorted_wrt (<) (1 # readings ops2 (initialApp [])) \<and>
   map tab_id (tabs (run ops2 (initialApp [])))
     = [js ''1730000000000'', js ''1730000000500''] \<and>
   distinct (map tab_id (tabs (run ops2 (initialApp [])))) \<and>
   sorted_wrt (\<le>) (map (id_value \<circ> tab_id) (tabs (run ops2 (initialApp [])))) \<and>
   sorted_wrt (<) (map (id_value \<circ> tab_id) (tabs (run ops2 (initialApp []))))"
  using tab_ids_ordered [of ops2 "[]"] readings_ops2 run_ops2
  by simp

text \<open>
  C9 as stated fails: two tabs created at the same clock reading (two clicks within one
  millisecond, or within one tick of a coarsened clock) get the same id.
\<close>

theorem tab_ids_duplicate:
  "\<not> distinct (map tab_id
        (tabs (run [AddTab 1730000000000, AddTab 1730000000000] (initialApp []))))"
  by (simp add: tab_eval)

lemmas node_eval = mountViewer_def clickExpand_def clickCollapse_def clickToggle_def Let_def
  mountExpanded_def initialExpanded_def expandEffect_def collapseEffect_def nodeEffects_def
  isEmpty_def isExpandable_def doc_abc_def doc_12_def view_abc_def node_b_def


section \<open>Claims about the tree of nodes\<close>

text \<open>
  C5. The expanded flag of a node starts as \<open>depth < 2\<close>. In a freshly mounted viewer
  (both signals 0) the mount effects leave it so at every node, the root has depth 0 and
  every child is one level below its parent; for the document \<open>{"a":{"b":{"c":1}}}\<close> the
  root and the value of \<open>a\<close> start expanded and the value of \<open>b\<close> starts collapsed.
\<close>

theorem default_expansion:
  "initialExpanded d = (d < 2) \<and>
   mountExpanded 0 0 d = (d < 2) \<and>
   default_expanded (root (mountViewer v)) \<and>
   depth (root (mountViewer v)) = 0 \<and>
   root (mountViewer doc_abc)
     = MNode None doc_abc 0 True True 0 0
        [MNode (Some (js ''a'')) (JObject [(js ''b'', JObject [(js ''c'', JNumber 1)])]) 1 True True 0 0
          [MNode (Some (js ''b'')) (JObject [(js ''c'', JNumber 1)]) 2 True False 0 0 []]]"
proof (intro conjI)
  show "initialExpanded d = (d < 2)" by (simp add: initialExpanded_def)
  show "mountExpanded 0 0 d = (d < 2)"
    by (simp add: mountExpanded_def collapseEffect_def expandEffect_def initialExpanded_def)
  show "default_expanded (root (mountViewer v))"
    using mount_default(1) [of None v 0 True] by (simp add: mountViewer_def)
  show "depth (root (mountViewer v)) = 0" by (simp add: mountViewer_def)
  show "root (mountViewer doc_abc)
     = MNode None doc_abc 0 True True 0 0
        [MNode (Some (js ''a'')) (JObject [(js ''b'', JObject [(js ''c'', JNumber 1)])]) 1 True True 0 0
          [MNode (Some (js ''b'')) (JObject [(js ''c'', JNumber 1)]) 2 True False 0 0 []]]"
    by (simp add: node_eval)
qed

theorem default_expansion_witness:
  "initialExpanded 1 \<and> \<not> initialExpanded 2 \<and>
   default_expanded (root (mountViewer doc_12)) \<and>
   root (mountViewer doc_12)
     = MNode None doc_12 0 True True 0 0
         [MNode None (JNumber 1) 1 False True 0 0 [], MNode None (JNumber 2) 1 True True 0 0 []]"
  using default_expansion [of 1 doc_12] default_expansion [of 2 doc_12]
  by (simp add: node_eval)


text \<open>
  C7. In every state of a node, the last row it renders (its only row, or the row of
  its closing bracket when it is an expanded non-empty container) holds exactly one comma,
  at its end, when the node is not the last sibling, and none when it is; the header row
  of an expanded non-empty container holds none. In every mounted tree, and after every
  re-render and toggle, a child is flagged last exactly when its index is the last one.
  For \<open>[1,2]\<close> the row of 1 ends with a comma and the row of 2 does not.
\<close>

theorem trailing_comma:
  "count_list (last (render ns m)) Comma = (if isLast m then 0 else 1) \<and>
   (\<not> isLast m \<longrightarrow> last (last (render ns m)) = Comma) \<and>
   (expanded m \<and> isExpandable (val m) \<and> \<not> isEmpty (val m) \<longrightarrow>
      count_list (hd (render ns m)) Comma = 0 \<and>
      last (render ns m) = Bracket (closingBracket (val m)) # (if isLast m then [] else [Comma])) \<and>
   siblings_ok (mountNode e c k v d l) \<and>
   (siblings_ok t \<longrightarrow> siblings_ok (rerender e c t) \<and> siblings_ok (toggleAt p t)) \<and>
   render toString (root (mountViewer doc_12))
     = [[Toggle True, Bracket 0x5B],
        [Literal NUMBER (js ''1''), Comma],
        [Literal NUMBER (js ''2'')],
        [Bracket 0x5D]]"
proof (intro conjI impI)
  show "count_list (last (render ns m)) Comma = (if isLast m then 0 else 1)"
    by (rule last_row_commas)
  show "last (last (render ns m)) = Comma" if "\<not> isLast m"
    using that by (rule last_row_ends_with_comma)
  show "count_list (hd (render ns m)) Comma = 0"
    if "expanded m \<and> isExpandable (val m) \<and> \<not> isEmpty (val m)"
    using that expanded_rows(1) [of m ns] by blast
  show "last (render ns m) = Bracket (closingBracket (val m)) # (if isLast m then [] else [Comma])"
    if "expanded m \<and> isExpandable (val m) \<and> \<not> isEmpty (val m)"
    using that expanded_rows(2) [of m ns] by blast
  show "siblings_ok (mountNode e c k v d l)" by (rule mount_siblings(1))
  show "siblings_ok (rerender e c t)" if "siblings_ok t" using that by (rule siblings_rerender)
  show "siblings_ok (toggleAt p t)" if "siblings_ok t" using that by (rule siblings_toggleAt)
  show "render toString (root (mountViewer doc_12))
     = [[Toggle True, Bracket 0x5B], [Literal NUMBER (js ''1''), Comma],
        [Literal NUMBER (js ''2'')], [Bracket 0x5D]]"
    by (simp add: node_eval renderKey_def renderValue_def openingBracket_def closingBracket_def
          toString_def nat_to_string.simps digit_char_def js_def)
qed

theorem trailing_comma_witness:
  "\<not> isLast row_a \<and> expanded row_a \<and> isExpandable (val row_a) \<and> \<not> isEmpty (val row_a) \<and>
   siblings_ok row_a \<and>
   render toString row_a
     = [[Toggle True, Key ([0x22] @ js ''a'' @ [0x22]), Colon, Bracket 0x5B],
        [Literal NULL (js ''null'')],
        [Bracket 0x5D, Comma]] \<and>
   siblings_ok (rerender 1 0 row_a) \<and> siblings_ok (toggleAt [] row_a)"
  using trailing_comma [where ns = toString and m = row_a and e = 1 and c = 0 and k = None
      and v = doc_12 and d = 0 and l = True and t = row_a and p = "[]"]
  by (simp add: row_a_def node_eval renderKey_def renderValue_def openingBracket_def
        closingBracket_def js_def)


text \<open>
  C3, as amended. For a mounted node, a re-render in which the expand-all counter has
  increased sets its expanded flag, and one in which the collapse-all counter has
  increased clears it (and unmounts its children), whatever the flag was. Each click on
  the toolbar increases a counter, so each click does this again at every node mounted at
  that moment. A node also reacts to the value of the expand-all counter when it mounts:
  mounting while that counter is positive and the collapse-all counter is zero, it starts
  expanded at any depth.
\<close>

theorem signal_effects:
  "(de < e \<longrightarrow> expanded (rerender e dc (MNode k v d l ex de dc ks)) = True) \<and>
   (dc < c \<longrightarrow> rerender ea c (MNode k v d l ex de dc ks) = MNode k v d l False ea c []) \<and>
   (view_inv V \<and> node_at p (root V) = Some m \<longrightarrow>
      node_at p (root (clickExpand V)) = Some (rerender (expandSignal V + 1) (collapseSignal V) m) \<and>
      expanded (rerender (expandSignal V + 1) (collapseSignal V) m) = True) \<and>
   (view_inv V \<longrightarrow>
      expanded (root (clickCollapse V)) = False \<and> kids (root (clickCollapse V)) = []) \<and>
   view_inv (mountViewer data) \<and>
   (view_inv V \<longrightarrow> view_inv (clickExpand V) \<and> view_inv (clickCollapse V) \<and> view_inv (clickToggle pa V)) \<and>
   (0 < eb \<longrightarrow> expanded (mountNode eb 0 kb vb db lb) = True)"
proof (intro conjI impI)
  assume "de < e"
  then show "expanded (rerender e dc (MNode k v d l ex de dc ks)) = True"
    using expanded_rerender_expand [of de e dc k v d l ex ks] by blast
next
  assume "dc < c"
  then show "rerender ea c (MNode k v d l ex de dc ks) = MNode k v d l False ea c []"
    by (rule rerender_collapse)
next
  assume a: "view_inv V \<and> node_at p (root V) = Some m"
  then have "node_at p (rerender (expandSignal V + 1) (collapseSignal V) (root V))
       = Some (rerender (expandSignal V + 1) (collapseSignal V) m) \<and>
     expanded (rerender (expandSignal V + 1) (collapseSignal V) m)"
    using expand_reaches_mounted [of "expandSignal V" "collapseSignal V" "root V" "expandSignal V + 1" p m]
    by (simp add: view_inv_def)
  then show "node_at p (root (clickExpand V)) = Some (rerender (expandSignal V + 1) (collapseSignal V) m)"
    and "expanded (rerender (expandSignal V + 1) (collapseSignal V) m) = True"
    by (simp_all add: clickExpand_def Let_def)
next
  assume a: "view_inv V"
  obtain k v d l ex de dc ks where r: "root V = MNode k v d l ex de dc ks" by (cases "root V")
  with a have "dc = collapseSignal V" by (simp add: view_inv_def)
  then have "rerender (expandSignal V) (collapseSignal V + 1) (root V)
               = MNode k v d l False (expandSignal V) (collapseSignal V + 1) []"
    using rerender_collapse [of dc "collapseSignal V + 1" "expandSignal V" k v d l ex de ks] r
    by simp
  then show "expanded (root (clickCollapse V)) = False" and "kids (root (clickCollapse V)) = []"
    by (simp_all add: clickCollapse_def Let_def)
next
  show "view_inv (mountViewer data)"
    by (simp add: view_inv_def mountViewer_def inv_mount)
next
  assume "view_inv V"
  then show "view_inv (clickExpand V)" "view_inv (clickCollapse V)" "view_inv (clickToggle pa V)"
    by (simp_all add: view_inv_def clickExpand_def clickCollapse_def clickToggle_def Let_def
          inv_rerender inv_toggleAt)
next
  assume "0 < eb"
  then show "expanded (mountNode eb 0 kb vb db lb) = True"
    by (simp add: mountExpanded_def collapseEffect_def expandEffect_def)
qed


theorem signal_effects_witness:
  "expanded (rerender 1 0 (MNode None doc_12 0 True False 0 0 [])) \<and>
   rerender 0 1 (MNode None doc_12 0 True True 0 0 []) = MNode None doc_12 0 True False 0 1 [] \<and>
   view_inv view_abc \<and>
   node_at [0, 0] (root view_abc) = Some node_b \<and> \<not> expanded node_b \<and>
   node_at [0, 0] (root (clickExpand view_abc)) = Some (rerender 1 0 node_b) \<and>
   expanded (rerender 1 0 node_b) \<and>
   \<not> expanded (root (clickCollapse view_abc)) \<and> kids (root (clickCollapse view_abc)) = [] \<and>
   view_inv (clickExpand view_abc) \<and> view_inv (clickCollapse view_abc) \<and>
   view_inv (clickToggle [0] view_abc) \<and>
   expanded (mountNode 1 0 None doc_12 5 True)"
  using signal_effects [where de = 0 and e = 1 and dc = 0 and k = None and v = doc_12
      and d = 0 and l = True and ex = False and ks = "[]" and c = 1 and ea = 0
      and V = view_abc and p = "[0, 0]" and m = node_b and data = doc_abc and pa = "[0]"
      and eb = 1 and kb = None and vb = doc_12 and db = 5 and lb = True]
    signal_effects [where de = 0 and e = 1 and dc = 0 and k = None and v = doc_12
      and d = 0 and l = True and ex = True and ks = "[]" and c = 1 and ea = 0
      and V = view_abc and p = "[0, 0]" and m = node_b and data = doc_abc and pa = "[0]"
      and eb = 1 and kb = None and vb = doc_12 and db = 5 and lb = True]
  by (simp add: node_eval)

text \<open>
  C3 as stated fails: a node does react to the value of a counter. After one
  expand-all, closing the row of \<open>a\<close> unmounts the node of \<open>b\<close>; opening it again mounts
  that node afresh, and it comes up expanded, against its default at depth 2, although
  no counter has changed since before it mounted.
\<close>

theorem mount_reacts_to_signal_value:
  "node_at [0, 0] (root (clickToggle [0] (clickExpand view_abc))) = None \<and>
   map_option expanded
     (node_at [0, 0] (root (clickToggle [0] (clickToggle [0] (clickExpand view_abc)))))
     = Some True \<and>
   expandSignal (clickToggle [0] (clickToggle [0] (clickExpand view_abc)))
     = expandSignal (clickExpand view_abc) \<and>
   \<not> initialExpanded 2"
  by (simp add: node_eval)

section \<open>Claims about parsing, the viewer states, copying and pasting\<close>

text \<open>
  C1. For content that is empty or holds white space only, the parse effect of the
  application sets no value and no diagnostic, without calling the parser, and the
  viewer is in its Empty state, whatever it showed before. (Called on such a text,
  \<open>safeJsonParse\<close> itself would return a diagnostic, see \<open>safeJsonParse_blank\<close>: the guard
  is in the effect.)
\<close>

theorem blank_content_empty_state:
  "list_all isWhiteSpace txt \<Longrightarrow>
   parseEffect E txt = \<lparr>parsed = None, error = None\<rparr> \<and>
   contentView E e c old txt = EmptyState"
  using contentView_blank [of "txt" E e c old] by (simp add: parseEffect_def trim_blank)

theorem blank_content_empty_state_witness:
  "list_all isWhiteSpace (js ''   '') \<and>
   parseEffect intPlatform (js ''   '') = \<lparr>parsed = None, error = None\<rparr> \<and>
   contentView intPlatform 0 0 None (js ''   '') = EmptyState \<and>
   list_all isWhiteSpace [] \<and>
   contentView intPlatform 1 0 (Some (root (clickExpand view_abc))) [] = EmptyState"
  using blank_content_empty_state [of "js ''   ''" intPlatform 0 0 None]
    blank_content_empty_state [of "[]" intPlatform 1 0 "Some (root (clickExpand view_abc))"]
  by (simp add: js_def isWhiteSpace_def)

text \<open>
  C4. \<open>safeJsonParse\<close> always returns: when the parser accepts the input, the parsed value
  and no diagnostic; when it rejects it, no value and the message of the error the parser
  threw. One of the two is the case for every input.
\<close>

theorem safeJsonParse_result:
  "(JSON_parse E input = Inr v \<longrightarrow>
      safeJsonParse E input = \<lparr>parsed = Some v, error = None\<rparr>) \<and>
   ((\<forall>v. JSON_parse E input \<noteq> Inr v) \<longrightarrow>
      safeJsonParse E input = \<lparr>parsed = None, error = Some (syntaxErrorMessage E input)\<rparr>) \<and>
   ((\<exists>v. safeJsonParse E input = \<lparr>parsed = Some v, error = None\<rparr>) \<or>
    (\<exists>m. safeJsonParse E input = \<lparr>parsed = None, error = Some m\<rparr>))"
proof (intro conjI impI)
  show "safeJsonParse E input = \<lparr>parsed = Some v, error = None\<rparr>" if "JSON_parse E input = Inr v"
    using that by (rule safeJsonParse_Inr)
  show "safeJsonParse E input = \<lparr>parsed = None, error = Some (syntaxErrorMessage E input)\<rparr>"
    if "\<forall>v. JSON_parse E input \<noteq> Inr v"
    using that by (rule safeJsonParse_Inl)
  show "(\<exists>v. safeJsonParse E input = \<lparr>parsed = Some v, error = None\<rparr>) \<or>
        (\<exists>m. safeJsonParse E input = \<lparr>parsed = None, error = Some m\<rparr>)"
    using safeJsonParse_Inr [of E input] safeJsonParse_Inl [of E input] by blast
qed

theorem safeJsonParse_result_witness:
  "JSON_parse intPlatform (js ''[1,2]'') = Inr doc_12 \<and>
   safeJsonParse intPlatform (js ''[1,2]'') = \<lparr>parsed = Some doc_12, error = None\<rparr> \<and>
   (\<forall>v. JSON_parse intPlatform (js ''{a:1}'') \<noteq> Inr v) \<and>
   safeJsonParse intPlatform (js ''{a:1}'')
     = \<lparr>parsed = None, error = Some (js ''Unexpected token'')\<rparr> \<and>
   (\<forall>v. JSON_parse intPlatform (js ''[1,2,'') \<noteq> Inr v) \<and>
   safeJsonParse intPlatform (js ''[1,2,'')
     = \<lparr>parsed = None, error = Some (js ''Unexpected token'')\<rparr>"
  using safeJsonParse_result [of intPlatform "js ''[1,2]''" doc_12]
    safeJsonParse_result [of intPlatform "js ''{a:1}''"]
    safeJsonParse_result [of intPlatform "js ''[1,2,''"]
    parse_12 parse_malformed(1,2)
  by (simp add: intPlatform_def)

text \<open>
  C10. The viewer is in its Empty state only when the data is \<open>undefined\<close>, which for
  the content of a tab means that the content is blank (or that the engine's error
  message is the empty string, which \<open>if (error)\<close> takes for no error). Content that
  parses to a value is shown in the Loaded state, whatever the viewer showed before and
  whatever its counters are, with that value at the root node of the tree. A value
  that is no array and no object is rendered there as one row that holds its literal
  and nothing else: so for \<open>null\<close>, \<open>false\<close>, \<open>0\<close> and the empty string. An array or
  object is rendered with its opening bracket in the first row.
\<close>

theorem empty_state_only_undefined:
  "(JsonViewer e c old data err = EmptyState \<longrightarrow> data = None) \<and>
   (contentView E e c old src = EmptyState \<longrightarrow>
      trim src = [] \<or> syntaxErrorMessage E src = []) \<and>
   (JSON_parse E input = Inr v \<longrightarrow>
      contentView E e c old input \<noteq> EmptyState \<and>
      (\<exists>r. viewRoot (contentView E e c old input) = Some r \<and> val r = v \<and>
           keyName r = None \<and> depth r = 0 \<and> isLast r \<and>
           (isExpandable v \<longrightarrow> Bracket (openingBracket v) \<in> set (hd (render ns r)))) \<and>
      (\<not> isExpandable v \<longrightarrow>
         treeRows ns (contentView E e c old input) = Some [renderValue ns v]) \<and>
      contentView E 0 0 None input = LoadedState (mountViewer v)) \<and>
   treeRows ns (contentView E e c old (js ''null'')) = Some [[Literal NULL (js ''null'')]] \<and>
   treeRows ns (contentView E e c old (js ''false''))
     = Some [[Literal BOOLEAN (js ''false'')]] \<and>
   treeRows ns (contentView E e c old (js ''0''))
     = Some [[Literal NUMBER (ns (ToNumber E (js ''0'')))]] \<and>
   treeRows ns (contentView E e c old [0x22, 0x22]) = Some [[Literal STRING [0x22, 0x22]]]"
proof (intro conjI impI)
  show "data = None" if "JsonViewer e c old data err = EmptyState"
    using that by (auto simp: JsonViewer_def split: option.splits if_splits)
  show "trim src = [] \<or> syntaxErrorMessage E src = []"
    if "contentView E e c old src = EmptyState"
    using that JSON_parse_cases [of E src]
    by (auto simp: contentView_def parseEffect_def safeJsonParse_def JsonViewer_def
          split: if_splits)
  show "contentView E e c old input \<noteq> EmptyState" if "JSON_parse E input = Inr v"
    using contentView_parsed [OF that, of e c old] by simp
  show "\<exists>r. viewRoot (contentView E e c old input) = Some r \<and> val r = v \<and>
           keyName r = None \<and> depth r = 0 \<and> isLast r \<and>
           (isExpandable v \<longrightarrow> Bracket (openingBracket v) \<in> set (hd (render ns r)))"
    if "JSON_parse E input = Inr v"
    using contentView_root [OF that, of e c old] render_container [of _ ns] by blast
  show "treeRows ns (contentView E e c old input) = Some [renderValue ns v]"
    if "JSON_parse E input = Inr v" and "\<not> isExpandable v"
    using that by (rule contentView_rows)
  show "contentView E 0 0 None input = LoadedState (mountViewer v)" if "JSON_parse E input = Inr v"
    using contentView_parsed [OF that, of 0 0 None] by (simp add: mountViewer_def)
  have "treeRows ns (contentView E e c old (js ''null'')) = Some [renderValue ns JNull]"
    by (rule contentView_rows [OF parse_literals(1)]) (simp add: isExpandable_def)
  then show "treeRows ns (contentView E e c old (js ''null''))
               = Some [[Literal NULL (js ''null'')]]"
    by (simp add: renderValue_def)
  have "treeRows ns (contentView E e c old (js ''false''))
          = Some [renderValue ns (JBool False)]"
    by (rule contentView_rows [OF parse_literals(2)]) (simp add: isExpandable_def)
  then show "treeRows ns (contentView E e c old (js ''false''))
               = Some [[Literal BOOLEAN (js ''false'')]]"
    by (simp add: renderValue_def)
  have "treeRows ns (contentView E e c old (js ''0''))
          = Some [renderValue ns (JNumber (ToNumber E (js ''0'')))]"
    by (rule contentView_rows [OF parse_literals(3)]) (simp add: isExpandable_def)
  then show "treeRows ns (contentView E e c old (js ''0''))
               = Some [[Literal NUMBER (ns (ToNumber E (js ''0'')))]]"
    by (simp add: renderValue_def)
  have "treeRows ns (contentView E e c old [0x22, 0x22]) = Some [renderValue ns (JString [])]"
    by (rule contentView_rows [OF parse_literals(4)]) (simp add: isExpandable_def)
  then show "treeRows ns (contentView E e c old [0x22, 0x22])
               = Some [[Literal STRING [0x22, 0x22]]]"
    by (simp add: renderValue_def)
qed

theorem empty_state_only_undefined_witness:
  "JsonViewer 1 0 (Some tree_7) None None = EmptyState \<and>
   contentView jsPlatform 1 0 (Some tree_7) [] = EmptyState \<and> trim [] = [] \<and>
   JSON_parse jsPlatform (js ''0'') = Inr (JNumber (Dbl 0 0)) \<and>
   contentView jsPlatform 1 0 (Some tree_7) (js ''0'') \<noteq> EmptyState \<and>
   \<not> isExpandable (JNumber (Dbl 0 0)) \<and>
   treeRows Number_toString (contentView jsPlatform 1 0 (Some tree_7) (js ''0''))
     = Some [[Literal NUMBER (js ''0'')]] \<and>
   contentView jsPlatform 0 0 None (js ''0'') = LoadedState (mountViewer (JNumber (Dbl 0 0))) \<and>
   treeRows Number_toString (contentView jsPlatform 1 0 (Some tree_7) (js ''null''))
     = Some [[Literal NULL (js ''null'')]] \<and>
   JSON_parse jsPlatform (js ''[2.5]'') = Inr (JArray [JNumber (Dbl 5 (- 1))]) \<and>
   isExpandable (JArray [JNumber (Dbl 5 (- 1))]) \<and>
   (\<exists>r. viewRoot (contentView jsPlatform 1 0 (Some tree_7) (js ''[2.5]'')) = Some r \<and>
        val r = JArray [JNumber (Dbl 5 (- 1))] \<and>
        Bracket 0x5B \<in> set (hd (render Number_toString r))) \<and>
   treeRows Number_toString (contentView jsPlatform 1 0 (Some tree_7) (js ''[2.5]''))
     = Some [[Toggle True, Bracket 0x5B], [Literal NUMBER (js ''2.5'')], [Bracket 0x5D]]"
proof -
  note a = empty_state_only_undefined [where e = 1 and c = 0 and old = "Some tree_7"
      and data = None and err = None and E = jsPlatform and src = "[]" and input = "js ''0''"
      and v = "JNumber (Dbl 0 0)" and ns = Number_toString]
  have e: "JsonViewer 1 0 (Some tree_7) (None :: double json option) None = EmptyState"
    by (simp add: JsonViewer_def)
  have c: "contentView jsPlatform 1 0 (Some tree_7) [] = EmptyState"
    using contentView_blank [of "[]" jsPlatform 1 0 "Some tree_7"] by simp
  have t: "trim [] = []" by (simp add: trim_def)
  have z: "ToNumber jsPlatform (js ''0'') = Dbl 0 0"
    by (simp add: jsPlatform_def literal_zero)
  have p: "JSON_parse jsPlatform (js ''0'') = Inr (JNumber (Dbl 0 0))"
    using parse_literals(3) [of jsPlatform] by (simp only: z)
  have x: "\<not> isExpandable (JNumber (Dbl 0 0))" by (simp add: isExpandable_def)
  have r: "renderValue Number_toString (JNumber (Dbl 0 0)) = [Literal NUMBER (js ''0'')]"
    by (simp add: renderValue_def)
  from a p x
  have "treeRows Number_toString (contentView jsPlatform 1 0 (Some tree_7) (js ''0''))
          = Some [renderValue Number_toString (JNumber (Dbl 0 0))]"
    by blast
  then have l: "treeRows Number_toString (contentView jsPlatform 1 0 (Some tree_7) (js ''0''))
                  = Some [[Literal NUMBER (js ''0'')]]"
    by (simp only: r)
  note b = empty_state_only_undefined [where e = 1 and c = 0 and old = "Some tree_7"
      and E = jsPlatform and input = "js ''[2.5]''" and v = "JArray [JNumber (Dbl 5 (- 1))]"
      and ns = Number_toString]
  have y: "isExpandable (JArray [JNumber (Dbl 5 (- 1))])" by (simp add: isExpandable_def)
  have o: "openingBracket (JArray [JNumber (Dbl 5 (- 1))]) = 0x5B"
    by (simp add: openingBracket_def)
  from b parse_2_5 y
  have "\<exists>r. viewRoot (contentView jsPlatform 1 0 (Some tree_7) (js ''[2.5]'')) = Some r \<and>
            val r = JArray [JNumber (Dbl 5 (- 1))] \<and>
            Bracket (openingBracket (JArray [JNumber (Dbl 5 (- 1))]))
              \<in> set (hd (render Number_toString r))"
    by blast
  then have k: "\<exists>r. viewRoot (contentView jsPlatform 1 0 (Some tree_7) (js ''[2.5]'')) = Some r \<and>
                  val r = JArray [JNumber (Dbl 5 (- 1))] \<and>
                  Bracket 0x5B \<in> set (hd (render Number_toString r))"
    by (simp only: o)
  from a p e c t x l parse_2_5 y k rows_2_5 show ?thesis by blast
qed




text \<open>
  C2, as amended. Every failed clipboard read (no clipboard object, a rejected read, an
  empty clipboard) leaves the tabs unchanged and shows the same error notice,
  "Browser blocked access. Please press Ctrl + V". The causes differ only in the error
  that is logged: "Clipboard is empty", "Clipboard API unavailable", or what the read
  threw.
\<close>

theorem paste_failure_toast:
  "(read_failed c \<longrightarrow>
      handlePasteFromClipboard c s
        = (s, \<lparr>msg = js ''Browser blocked access. Please press Ctrl + V'',
                toast_type = error_toast\<rparr>,
           Some (case c of ClipboardUnavailable \<Rightarrow> Error (js ''Clipboard API unavailable'')
                 | ReadRejects err \<Rightarrow> err
                 | ReadResolves text \<Rightarrow> Error (js ''Clipboard is empty'')))) \<and>
   read_failed ClipboardUnavailable \<and> read_failed (ReadRejects err) \<and> read_failed (ReadResolves []) \<and>
   (read_failed (ReadResolves text) \<longleftrightarrow> text = []) \<and>
   Error (js ''Clipboard is empty'') \<noteq> Error (js ''Clipboard API unavailable'')"
  by (cases c) (auto simp: read_failed_def readClipboard_def handlePasteFromClipboard_def js_def)

theorem paste_failure_toast_witness:
  "read_failed (ReadResolves []) \<and>
   handlePasteFromClipboard (ReadResolves []) (initialApp [])
     = (initialApp [], \<lparr>msg = js ''Browser blocked access. Please press Ctrl + V'',
                          toast_type = error_toast\<rparr>,
        Some (Error (js ''Clipboard is empty'')))"
  using paste_failure_toast [of "ReadResolves []" "initialApp []"]
  by simp

text \<open>
  C2 as stated fails: the notice for an empty clipboard has the same text as the notice
  for a missing clipboard object.
\<close>

theorem empty_clipboard_same_notice:
  "msg (fst (snd (handlePasteFromClipboard (ReadResolves []) (initialApp []))))
     = msg (fst (snd (handlePasteFromClipboard ClipboardUnavailable (initialApp []))))"
  by (simp add: handlePasteFromClipboard_def readClipboard_def)

end

